theory Spec2Isabelle
  imports Complex_Main "HOL-Library.Word"
begin

section \<open>Machine types, faults and counted loops\<close>

text \<open>
  \<^verbatim>\<open>unsigned int\<close> is a 32-bit word and \<^verbatim>\<open>size_t\<close> a 64-bit word; \<open>+\<close>, \<open>-\<close> and
  \<open>*\<close> on them wrap around as in C++. Indexing a \<^verbatim>\<open>std::vector\<close> outside its size is
  undefined behaviour in C++; the model makes it the fault \<open>OutOfBounds\<close>, so that every
  access of the source is a checked branch of the model.
\<close>

type_synonym u32 = "32 word"
type_synonym size_t = "64 word"

datatype fault = OutOfBounds

text \<open>\<^verbatim>\<open>for (T i = i0; i < n; i++) body\<close> on a word type \<open>T\<close>, with a body that cannot fail.\<close>

function for_loop :: "'a::len word \<Rightarrow> 'a word \<Rightarrow> ('a word \<Rightarrow> 's \<Rightarrow> 's) \<Rightarrow> 's \<Rightarrow> 's" where
  "for_loop i n body s = (if i < n then for_loop (i + 1) n body (body i s) else s)"
  by pat_completeness auto
termination
  apply (relation "measure (\<lambda>(i, n, body, s). unat n - unat i)")
   apply simp
  apply (simp add: word_less_nat_alt)
  apply unat_arith
  done

declare for_loop.simps [simp del]

text \<open>The same loop with a body that may fault; the first fault leaves the loop.\<close>

function for_loop_chk ::
  "'a::len word \<Rightarrow> 'a word \<Rightarrow> ('a word \<Rightarrow> 's \<Rightarrow> fault + 's) \<Rightarrow> 's \<Rightarrow> fault + 's" where
  "for_loop_chk i n body s =
     (if i < n then
        (case body i s of
           Inl e \<Rightarrow> Inl e
         | Inr s' \<Rightarrow> for_loop_chk (i + 1) n body s')
      else Inr s)"
  by pat_completeness auto
termination
  apply (relation "measure (\<lambda>(i, n, body, s). unat n - unat i)")
   apply simp
  apply (simp add: word_less_nat_alt)
  apply unat_arith
  done

declare for_loop_chk.simps [simp del]

text \<open>\<^verbatim>\<open>v[i] = x\<close> and \<^verbatim>\<open>v[i]\<close> on a \<^verbatim>\<open>std::vector<float>\<close>, the index an \<^verbatim>\<open>unsigned int\<close>.\<close>

definition store :: "'f list \<Rightarrow> u32 \<Rightarrow> 'f \<Rightarrow> fault + 'f list" where
  "store vs i x = (if unat i < length vs then Inr (vs[unat i := x]) else Inl OutOfBounds)"

definition load :: "'f list \<Rightarrow> u32 \<Rightarrow> fault + 'f" where
  "load vs i = (if unat i < length vs then Inr (vs ! unat i) else Inl OutOfBounds)"

definition and_then :: "fault + 'a \<Rightarrow> ('a \<Rightarrow> fault + 'b) \<Rightarrow> fault + 'b" where
  "and_then m k = (case m of Inl e \<Rightarrow> Inl e | Inr a \<Rightarrow> k a)"

section \<open>Floating-point operations\<close>

text \<open>
  The \<^verbatim>\<open>float\<close> arithmetic of the source is a parameter of the model: a record of the
  operations the source applies, over an arbitrary carrier \<open>'f\<close>. Whatever is proved for an
  arbitrary \<open>'f float_ops\<close> holds for the machine's rounding arithmetic too.
  \<^item> \<open>f_of_size\<close> is the implicit conversion \<^verbatim>\<open>size_t\<close> to \<^verbatim>\<open>float\<close> in \<^verbatim>\<open>i_lat * lat_step\<close>;
  \<^item> \<open>f_lon_step n\<close> is \<^verbatim>\<open>(float) (2*M_PI / n)\<close> and \<open>f_lat_step n\<close> is \<^verbatim>\<open>(float) (M_PI / n)\<close>;
  \<^item> \<open>f_normalize\<close> is \<^verbatim>\<open>glm::normalize\<close> on a \<^verbatim>\<open>glm::vec3\<close>.
\<close>

record 'f float_ops =
  f_zero :: 'f
  f_neg :: "'f \<Rightarrow> 'f"
  f_mul :: "'f \<Rightarrow> 'f \<Rightarrow> 'f"
  f_cos :: "'f \<Rightarrow> 'f"
  f_sin :: "'f \<Rightarrow> 'f"
  f_of_size :: "size_t \<Rightarrow> 'f"
  f_lon_step :: "u32 \<Rightarrow> 'f"
  f_lat_step :: "u32 \<Rightarrow> 'f"
  f_normalize :: "'f \<times> 'f \<times> 'f \<Rightarrow> 'f \<times> 'f \<times> 'f"

subsection \<open>Exact arithmetic\<close>

text \<open>
  The operations without rounding, on the reals: what the machine's arithmetic approximates.
  \<^verbatim>\<open>glm::normalize(v)\<close> is \<^verbatim>\<open>v * inversesqrt(dot(v, v))\<close>.
\<close>

definition exact :: "real float_ops" where
  "exact =
     \<lparr> f_zero = 0,
       f_neg = (\<lambda>x. - x),
       f_mul = (\<lambda>x y. x * y),
       f_cos = cos,
       f_sin = sin,
       f_of_size = (\<lambda>n. real (unat n)),
       f_lon_step = (\<lambda>n. 2 * pi / real (unat n)),
       f_lat_step = (\<lambda>n. pi / real (unat n)),
       f_normalize = (\<lambda>(x, y, z).
          let k = 1 / sqrt (x * x + y * y + z * z) in (x * k, y * k, z * k)) \<rparr>"

subsection \<open>Single precision\<close>

text \<open>
  The machine's arithmetic: \<^verbatim>\<open>float\<close> is IEEE 754 binary32 and \<^verbatim>\<open>double\<close> is binary64, every
  operation rounding its exact result to the nearest value of the format, ties to the even
  significand. A value is a NaN, an infinity with its sign, or a sign (\<open>True\<close> for minus) and
  a magnitude; the two zeros differ by their sign.
\<close>

datatype fp = NaN | Infinity bool | Finite bool real

record format =
  precision :: nat
  emin :: int
  emax :: int

definition fmt32 :: format where
  "fmt32 = \<lparr> precision = 24, emin = - 126, emax = 127 \<rparr>"

definition fmt64 :: format where
  "fmt64 = \<lparr> precision = 53, emin = - 1022, emax = 1023 \<rparr>"

definition pow2 :: "int \<Rightarrow> real" where
  "pow2 e = (if 0 \<le> e then 2 ^ nat e else 1 / 2 ^ nat (- e))"

text \<open>
  The binary exponent of \<open>x > 0\<close>, that is the \<open>e\<close> with \<open>2 ^ e \<le> x < 2 ^ (e + 1)\<close>: the
  number of halvings that bring \<open>x \<ge> 1\<close> below 2, or minus the number of doublings that bring
  \<open>x < 1\<close> to 1 or above.
\<close>

function lg_up :: "real \<Rightarrow> int" where
  "lg_up x = (if x < 2 then 0 else 1 + lg_up (x / 2))"
  by pat_completeness auto
termination
proof (relation "measure (\<lambda>x. nat \<lfloor>x\<rfloor>)")
  show "wf (measure (\<lambda>x::real. nat \<lfloor>x\<rfloor>))"
    by simp
next
  fix x :: real
  assume "\<not> x < 2"
  then have "\<lfloor>x / 2\<rfloor> < \<lfloor>x\<rfloor>" and "0 < \<lfloor>x\<rfloor>"
    by linarith+
  then show "(x / 2, x) \<in> measure (\<lambda>x. nat \<lfloor>x\<rfloor>)"
    by simp
qed

function lg_dn :: "real \<Rightarrow> int" where
  "lg_dn x = (if x \<le> 0 \<or> 1 \<le> x then 0 else 1 + lg_dn (2 * x))"
  by pat_completeness auto
termination
proof (relation "measure (\<lambda>x. nat \<lceil>1 / x\<rceil>)")
  show "wf (measure (\<lambda>x::real. nat \<lceil>1 / x\<rceil>))"
    by simp
next
  fix x :: real
  assume "\<not> (x \<le> 0 \<or> 1 \<le> x)"
  then have x: "0 < x" "x < 1"
    by simp_all
  define y where "y = 1 / x"
  have y: "1 < y"
    using x by (simp add: y_def)
  have e: "1 / (2 * x) = y / 2"
    by (simp add: y_def)
  from y have "2 \<le> \<lceil>y\<rceil>"
    by linarith
  then have "2 \<le> real_of_int \<lceil>y\<rceil>"
    by linarith
  with le_of_int_ceiling [of y] have "y / 2 \<le> real_of_int \<lceil>y\<rceil> - 1"
    by linarith
  then have "y / 2 \<le> of_int (\<lceil>y\<rceil> - 1)"
    by (simp only: of_int_diff of_int_1)
  then have "\<lceil>y / 2\<rceil> \<le> \<lceil>y\<rceil> - 1"
    by (simp only: ceiling_le_iff)
  with \<open>2 \<le> \<lceil>y\<rceil>\<close> have "nat \<lceil>y / 2\<rceil> < nat \<lceil>y\<rceil>"
    by linarith
  then have "nat \<lceil>1 / (2 * x)\<rceil> < nat \<lceil>1 / x\<rceil>"
    by (simp only: e y_def [symmetric])
  then show "(2 * x, x) \<in> measure (\<lambda>x. nat \<lceil>1 / x\<rceil>)"
    by (simp only: in_measure)
qed

declare lg_up.simps [simp del] lg_dn.simps [simp del]

definition ilog2 :: "real \<Rightarrow> int" where
  "ilog2 x = (if 1 \<le> x then lg_up x else - lg_dn x)"

text \<open>The nearest integer, a tie going to the even one.\<close>

definition round_even :: "real \<Rightarrow> int" where
  "round_even x =
     (let n = \<lfloor>x\<rfloor>; d = x - of_int n in
      if d < 1 / 2 then n else if 1 / 2 < d then n + 1 else if even n then n else n + 1)"

text \<open>
  Rounding the magnitude \<open>x \<ge> 0\<close> to a format: the nearest multiple of the unit in the last
  place \<open>2 ^ e\<close>, where \<open>e\<close> is the exponent of \<open>x\<close>, not below \<open>emin\<close> (the subnormal range), less
  the \<open>precision - 1\<close> fraction bits; a rounded magnitude of \<open>2 ^ (emax + 1)\<close> or more
  overflows to the infinity.
\<close>

definition fp_round :: "format \<Rightarrow> bool \<Rightarrow> real \<Rightarrow> fp" where
  "fp_round fmt s x =
     (if x = 0 then Finite s 0
      else
        let e = max (ilog2 x) (emin fmt) - (int (precision fmt) - 1);
            y = of_int (round_even (x / pow2 e)) * pow2 e
        in if pow2 (emax fmt + 1) \<le> y then Infinity s else Finite s y)"

text \<open>Conversion to a format, as in the initialisation of a \<^verbatim>\<open>float\<close> from a \<^verbatim>\<open>double\<close>.\<close>

definition fp_convert :: "format \<Rightarrow> fp \<Rightarrow> fp" where
  "fp_convert fmt a = (case a of Finite s x \<Rightarrow> fp_round fmt s x | _ \<Rightarrow> a)"

definition fp_neg :: "fp \<Rightarrow> fp" where
  "fp_neg a =
     (case a of NaN \<Rightarrow> NaN | Infinity s \<Rightarrow> Infinity (\<not> s) | Finite s x \<Rightarrow> Finite (\<not> s) x)"

fun fp_mul :: "format \<Rightarrow> fp \<Rightarrow> fp \<Rightarrow> fp" where
  "fp_mul fmt (Finite s x) (Finite t y) = fp_round fmt (s \<noteq> t) (x * y)"
| "fp_mul fmt (Finite s x) (Infinity t) = (if x = 0 then NaN else Infinity (s \<noteq> t))"
| "fp_mul fmt (Infinity s) (Finite t y) = (if y = 0 then NaN else Infinity (s \<noteq> t))"
| "fp_mul fmt (Infinity s) (Infinity t) = Infinity (s \<noteq> t)"
| "fp_mul fmt NaN b = NaN"
| "fp_mul fmt a NaN = NaN"

fun fp_div :: "format \<Rightarrow> fp \<Rightarrow> fp \<Rightarrow> fp" where
  "fp_div fmt (Finite s x) (Finite t y) =
     (if y = 0 then (if x = 0 then NaN else Infinity (s \<noteq> t))
      else fp_round fmt (s \<noteq> t) (x / y))"
| "fp_div fmt (Finite s x) (Infinity t) = Finite (s \<noteq> t) 0"
| "fp_div fmt (Infinity s) (Finite t y) = Infinity (s \<noteq> t)"
| "fp_div fmt (Infinity s) (Infinity t) = NaN"
| "fp_div fmt NaN b = NaN"
| "fp_div fmt a NaN = NaN"

definition with_sign :: "bool \<Rightarrow> real \<Rightarrow> real" where
  "with_sign s x = (if s then - x else x)"

text \<open>An exact sum of zero is \<open>+0\<close>, unless both terms are \<open>-0\<close>.\<close>

fun fp_add :: "format \<Rightarrow> fp \<Rightarrow> fp \<Rightarrow> fp" where
  "fp_add fmt (Finite s x) (Finite t y) =
     (let z = with_sign s x + with_sign t y in
      if z = 0 then Finite (s \<and> t) 0 else fp_round fmt (z < 0) \<bar>z\<bar>)"
| "fp_add fmt (Finite s x) (Infinity t) = Infinity t"
| "fp_add fmt (Infinity s) (Finite t y) = Infinity s"
| "fp_add fmt (Infinity s) (Infinity t) = (if s = t then Infinity s else NaN)"
| "fp_add fmt NaN b = NaN"
| "fp_add fmt a NaN = NaN"

text \<open>
  The square root, rounded: with \<open>u = 2 ^ e\<close> the unit in the last place of the root, the
  integer part \<open>n\<close> of \<open>sqrt x / u\<close> is the integer square root of the integer part of
  \<open>x / (u * u)\<close>, and the root is nearer to \<open>n + 1\<close> than to \<open>n\<close> exactly when \<open>x / (u * u)\<close>
  exceeds \<open>(n + 1/2) * (n + 1/2)\<close>.
\<close>

function isqrt :: "nat \<Rightarrow> nat" where
  "isqrt n =
     (if n < 2 then n
      else let r = 2 * isqrt (n div 4) in if (r + 1) * (r + 1) \<le> n then r + 1 else r)"
  by pat_completeness auto
termination
  by (relation "measure (\<lambda>n. n)") auto

declare isqrt.simps [simp del]

definition fp_round_sqrt :: "format \<Rightarrow> real \<Rightarrow> fp" where
  "fp_round_sqrt fmt x =
     (let e = max (ilog2 x div 2) (emin fmt) - (int (precision fmt) - 1);
          y = x / (pow2 e * pow2 e);
          n = int (isqrt (nat \<lfloor>y\<rfloor>));
          h = (of_int n + 1 / 2) * (of_int n + 1 / 2);
          m = (if y < h then n else if h < y then n + 1 else if even n then n else n + 1)
      in Finite False (of_int m * pow2 e))"

fun fp_sqrt :: "format \<Rightarrow> fp \<Rightarrow> fp" where
  "fp_sqrt fmt (Finite s x) =
     (if x = 0 then Finite s 0 else if s then NaN else fp_round_sqrt fmt x)"
| "fp_sqrt fmt (Infinity s) = (if s then NaN else Infinity False)"
| "fp_sqrt fmt NaN = NaN"

text \<open>
  \<^verbatim>\<open>std::cos\<close> and \<^verbatim>\<open>std::sin\<close> on a \<^verbatim>\<open>float\<close> are functions of the C library, whose results the
  language does not fix: they are taken as the correctly rounded cosine and sine. Nothing
  below depends on the values they return.
\<close>

definition fp_cos :: "format \<Rightarrow> fp \<Rightarrow> fp" where
  "fp_cos fmt a =
     (case a of
        Finite s x \<Rightarrow> (let c = cos (with_sign s x) in fp_round fmt (c < 0) \<bar>c\<bar>)
      | _ \<Rightarrow> NaN)"

definition fp_sin :: "format \<Rightarrow> fp \<Rightarrow> fp" where
  "fp_sin fmt a =
     (case a of
        Finite s x \<Rightarrow> (let c = sin (with_sign s x) in fp_round fmt (c < 0) \<bar>c\<bar>)
      | _ \<Rightarrow> NaN)"

text \<open>The macro \<^verbatim>\<open>M_PI\<close> of \<^verbatim>\<open><cmath>\<close>, a \<^verbatim>\<open>double\<close> literal.\<close>

definition M_PI :: fp where
  "M_PI = fp_round fmt64 False (314159265358979323846 / 10 ^ 20)"

text \<open>
  \<^verbatim>\<open>glm::normalize(v)\<close> is \<^verbatim>\<open>v * inversesqrt(dot(v, v))\<close>, where \<^verbatim>\<open>inversesqrt(x)\<close> is
  \<^verbatim>\<open>1 / sqrt(x)\<close> and \<^verbatim>\<open>dot\<close> on a \<^verbatim>\<open>vec3\<close> adds the three products from left to right, every
  operation in single precision.
\<close>

definition glm_normalize :: "fp \<times> fp \<times> fp \<Rightarrow> fp \<times> fp \<times> fp" where
  "glm_normalize v =
     (case v of (x, y, z) \<Rightarrow>
        let d = fp_add fmt32 (fp_add fmt32 (fp_mul fmt32 x x) (fp_mul fmt32 y y)) (fp_mul fmt32 z z);
            k = fp_div fmt32 (Finite False 1) (fp_sqrt fmt32 d)
        in (fp_mul fmt32 x k, fp_mul fmt32 y k, fp_mul fmt32 z k))"

text \<open>
  The operations of the source on the machine. \<^verbatim>\<open>2*M_PI / m_n_longitudes\<close> and
  \<^verbatim>\<open>M_PI / m_n_latitudes\<close> are computed in \<^verbatim>\<open>double\<close> (the count converts exactly) and rounded
  once more when they initialise a \<^verbatim>\<open>float\<close>; the \<^verbatim>\<open>size_t\<close> loop counter converts to the
  nearest \<^verbatim>\<open>float\<close>.
\<close>

definition binary32 :: "fp float_ops" where
  "binary32 =
     \<lparr> f_zero = Finite False 0,
       f_neg = fp_neg,
       f_mul = fp_mul fmt32,
       f_cos = fp_cos fmt32,
       f_sin = fp_sin fmt32,
       f_of_size = (\<lambda>n. fp_round fmt32 False (real (unat n))),
       f_lon_step = (\<lambda>n.
          fp_convert fmt32
            (fp_div fmt64 (fp_mul fmt64 (Finite False 2) M_PI) (Finite False (real (unat n))))),
       f_lat_step = (\<lambda>n.
          fp_convert fmt32 (fp_div fmt64 M_PI (Finite False (real (unat n))))),
       f_normalize = glm_normalize \<rparr>"

section \<open>The sphere\<close>

text \<open>The data members of \<^verbatim>\<open>geometry::Sphere\<close>.\<close>

record 'f sphere =
  m_radius :: 'f
  m_n_longitudes :: u32
  m_n_latitudes :: u32
  m_n_vertexes :: u32
  m_vertexes :: "'f list"
  m_indices :: "u32 list"

text \<open>
  Modelled from the spec: the header \<^verbatim>\<open>geometries/sphere.hpp\<close>, which declares the
  constant \<^verbatim>\<open>m_n_coords\<close>, is not among the sources. The spec gives the stride of a vertex
  as 6 floats (3 of position, 3 of normal); the source assigns the constant to an
  \<^verbatim>\<open>unsigned int\<close>, and that is the type it has here.
\<close>

definition m_n_coords :: u32 where
  "m_n_coords = 6"

subsection \<open>\<^verbatim>\<open>Sphere::set_vertexes\<close>\<close>

text \<open>
  The position written for ring \<open>i_lat\<close>, longitude \<open>i_lon\<close>: the three right-hand sides of
  the inner loop. The loop counters are \<^verbatim>\<open>size_t\<close>, and \<^verbatim>\<open>i_coord\<close> is an \<^verbatim>\<open>unsigned int\<close>.
  The line that \<^verbatim>\<open>set_vertexes\<close> prints to \<^verbatim>\<open>std::cout\<close> is not modelled.
\<close>

definition ring_vertex ::
  "'f float_ops \<Rightarrow> 'f \<Rightarrow> u32 \<Rightarrow> u32 \<Rightarrow> size_t \<Rightarrow> size_t \<Rightarrow> 'f \<times> 'f \<times> 'f" where
  "ring_vertex ops r n_lon n_lat i_lat i_lon =
     (let lon_step = f_lon_step ops n_lon;
          lat_step = f_lat_step ops n_lat;
          lat = f_mul ops (f_of_size ops i_lat) lat_step;
          lon = f_mul ops (f_of_size ops i_lon) lon_step
      in (f_mul ops (f_mul ops r (f_cos ops lon)) (f_sin ops lat),
          f_mul ops r (f_cos ops lat),
          f_mul ops (f_mul ops r (f_sin ops lon)) (f_sin ops lat)))"

text \<open>Three consecutive stores at \<open>i\<close>, \<open>i + 1\<close>, \<open>i + 2\<close> (the index arithmetic is \<^verbatim>\<open>unsigned int\<close>).\<close>

definition store3 :: "'f list \<Rightarrow> u32 \<Rightarrow> 'f \<times> 'f \<times> 'f \<Rightarrow> fault + 'f list" where
  "store3 vs i p =
     (case p of (x, y, z) \<Rightarrow>
        and_then (store vs i x) (\<lambda>vs.
        and_then (store vs (i + 1) y) (\<lambda>vs.
        store vs (i + 2) z)))"

definition ring_step ::
  "'f float_ops \<Rightarrow> 'f \<Rightarrow> u32 \<Rightarrow> u32 \<Rightarrow> size_t \<Rightarrow> size_t \<Rightarrow> u32 \<times> 'f list \<Rightarrow> fault + u32 \<times> 'f list" where
  "ring_step ops r n_lon n_lat i_lat i_lon st =
     (case st of (i_coord, vs) \<Rightarrow>
        and_then (store3 vs i_coord (ring_vertex ops r n_lon n_lat i_lat i_lon)) (\<lambda>vs.
        Inr (i_coord + m_n_coords, vs)))"

definition set_vertexes :: "'f float_ops \<Rightarrow> 'f sphere \<Rightarrow> fault + 'f sphere" where
  "set_vertexes ops s =
     (let r = m_radius s; n_lon = m_n_longitudes s; n_lat = m_n_latitudes s in
      and_then (store3 (m_vertexes s) 0 (f_zero ops, r, f_zero ops)) (\<lambda>vs.
      and_then
        (for_loop_chk 1 (ucast n_lat)
           (\<lambda>i_lat. for_loop_chk 0 (ucast n_lon) (ring_step ops r n_lon n_lat i_lat))
           (m_n_coords, vs)) (\<lambda>(i_coord, vs).
      and_then (store3 vs i_coord (f_zero ops, f_neg ops r, f_zero ops)) (\<lambda>vs.
      Inr (s\<lparr>m_vertexes := vs\<rparr>)))))"

subsection \<open>\<^verbatim>\<open>Sphere::set_indices\<close>\<close>

text \<open>\<^verbatim>\<open>m_indices.insert(m_indices.end(), { a, b, c })\<close> appends three indices.\<close>

definition north_step :: "u32 \<Rightarrow> u32 list \<Rightarrow> u32 list" where
  "north_step i_lon idx = idx @ [0, i_lon + 1, i_lon]"

definition quad_step :: "u32 \<Rightarrow> u32 \<Rightarrow> u32 \<Rightarrow> u32 list \<Rightarrow> u32 list" where
  "quad_step n_lon i_lat i_lon idx =
     (let i_p0 = i_lon + i_lat * n_lon;
          i_p1 = i_p0 + 1;
          i_p2 = (i_lon + n_lon) + i_lat * n_lon;
          i_p3 = i_p2 + 1
      in (idx @ [i_p0, i_p1, i_p2]) @ [i_p1, i_p3, i_p2])"

definition band_step :: "u32 \<Rightarrow> u32 \<Rightarrow> u32 list \<Rightarrow> u32 list" where
  "band_step n_lon i_lat idx =
     (let idx = for_loop 1 n_lon (quad_step n_lon i_lat) idx;
          i_p0 = 1 + i_lat * n_lon;
          i_p1 = n_lon + i_lat * n_lon;
          i_p2 = i_p0 + n_lon;
          i_p3 = i_p1 + n_lon
      in (idx @ [i_p0, i_p2, i_p1]) @ [i_p1, i_p2, i_p3])"

definition south_step :: "u32 \<Rightarrow> u32 \<Rightarrow> u32 list \<Rightarrow> u32 list" where
  "south_step indice_last i_lon idx =
     idx @ [indice_last, indice_last - (i_lon + 1), indice_last - i_lon]"

definition set_indices :: "'f sphere \<Rightarrow> 'f sphere" where
  "set_indices s =
     (let n_lon = m_n_longitudes s; n_lat = m_n_latitudes s;
          idx = for_loop 1 n_lon north_step (m_indices s);
          idx = idx @ [0, 1, n_lon];
          idx = for_loop 0 (n_lat - 2) (band_step n_lon) idx;
          indice_last = n_lon * (n_lat - 1) + 1;
          idx = for_loop 1 n_lon (south_step indice_last) idx;
          idx = idx @ [indice_last, indice_last - 1, indice_last - n_lon]
      in s\<lparr>m_indices := idx\<rparr>)"

subsection \<open>\<^verbatim>\<open>Sphere::set_normals\<close>\<close>

text \<open>
  \<^verbatim>\<open>unsigned int i_coord = m_n_coords * i_vertex\<close>: the product is taken in \<^verbatim>\<open>size_t\<close> and
  truncated to \<^verbatim>\<open>unsigned int\<close>.
\<close>

definition normal_step :: "'f float_ops \<Rightarrow> size_t \<Rightarrow> 'f list \<Rightarrow> fault + 'f list" where
  "normal_step ops i_vertex vs =
     (let i_coord = (ucast (ucast m_n_coords * i_vertex) :: u32) in
      and_then (load vs i_coord) (\<lambda>x.
      and_then (load vs (i_coord + 1)) (\<lambda>y.
      and_then (load vs (i_coord + 2)) (\<lambda>z.
      (case f_normalize ops (x, y, z) of (nx, ny, nz) \<Rightarrow>
         and_then (store vs (i_coord + 3) nx) (\<lambda>vs.
         and_then (store vs (i_coord + 4) ny) (\<lambda>vs.
         store vs (i_coord + 5) nz)))))))"

definition set_normals :: "'f float_ops \<Rightarrow> 'f sphere \<Rightarrow> fault + 'f sphere" where
  "set_normals ops s =
     and_then (for_loop_chk 0 (ucast (m_n_vertexes s)) (normal_step ops) (m_vertexes s)) (\<lambda>vs.
     Inr (s\<lparr>m_vertexes := vs\<rparr>))"

subsection \<open>The constructor and the getters\<close>

text \<open>
  The member initialisers, in the order of the initialiser list, then
  \<^verbatim>\<open>m_vertexes.resize(m_n_coords * m_n_vertexes)\<close> on the empty vector (the product is an
  \<^verbatim>\<open>unsigned int\<close>; the new floats are value-initialised, that is zero), then the three
  passes in the order of the constructor's body.
\<close>

definition init_sphere :: "'f float_ops \<Rightarrow> 'f \<Rightarrow> u32 \<Rightarrow> u32 \<Rightarrow> 'f sphere" where
  "init_sphere ops radius n_longitudes n_latitudes =
     (let n_vertexes = 1 + n_longitudes * (n_latitudes - 1) + 1 in
      \<lparr> m_radius = radius,
        m_n_longitudes = n_longitudes,
        m_n_latitudes = n_latitudes,
        m_n_vertexes = n_vertexes,
        m_vertexes = replicate (unat (m_n_coords * n_vertexes)) (f_zero ops),
        m_indices = [] \<rparr>)"

definition Sphere :: "'f float_ops \<Rightarrow> 'f \<Rightarrow> u32 \<Rightarrow> u32 \<Rightarrow> fault + 'f sphere" where
  "Sphere ops radius n_longitudes n_latitudes =
     and_then (set_vertexes ops (init_sphere ops radius n_longitudes n_latitudes)) (\<lambda>s.
     set_normals ops (set_indices s))"

definition get_vertexes :: "'f sphere \<Rightarrow> 'f list" where
  "get_vertexes s = m_vertexes s"

text \<open>\<^verbatim>\<open>m_indices.size()\<close> is a \<^verbatim>\<open>size_t\<close>, returned as \<^verbatim>\<open>unsigned int\<close>.\<close>

definition get_n_elements :: "'f sphere \<Rightarrow> u32" where
  "get_n_elements s = ucast (word_of_nat (length (m_indices s)) :: size_t)"

section \<open>Notions used to state and prove the properties\<close>

text \<open>
  Nothing in this section is part of the program. It holds the functions that read the
  outputs (a vertex of the buffer, the triples of the index list), the closed forms that the
  loops are proved to compute, and the geometric predicates of the properties.
\<close>

text \<open>A fold whose step may fault: what \<open>for_loop_chk\<close> computes over the list of its counter values.\<close>

fun fold_chk :: "('a \<Rightarrow> 's \<Rightarrow> fault + 's) \<Rightarrow> 'a list \<Rightarrow> 's \<Rightarrow> fault + 's" where
  "fold_chk f [] s = Inr s"
| "fold_chk f (x # xs) s = (case f x s of Inl e \<Rightarrow> Inl e | Inr s' \<Rightarrow> fold_chk f xs s')"

text \<open>The record of a vertex in the buffer, 6 floats: after \<^verbatim>\<open>set_vertexes\<close> (position, then zeros) and after \<^verbatim>\<open>set_normals\<close> (position, then normal).\<close>

definition enc_pos :: "'f float_ops \<Rightarrow> 'f \<times> 'f \<times> 'f \<Rightarrow> 'f list" where
  "enc_pos ops p = (case p of (x, y, z) \<Rightarrow> [x, y, z, f_zero ops, f_zero ops, f_zero ops])"

definition enc_full :: "'f float_ops \<Rightarrow> 'f \<times> 'f \<times> 'f \<Rightarrow> 'f list" where
  "enc_full ops p =
     (case p of (x, y, z) \<Rightarrow> case f_normalize ops p of (nx, ny, nz) \<Rightarrow> [x, y, z, nx, ny, nz])"

text \<open>The positions in the order of the buffer: north pole, rings, south pole.\<close>

definition positions :: "'f float_ops \<Rightarrow> 'f \<Rightarrow> u32 \<Rightarrow> u32 \<Rightarrow> ('f \<times> 'f \<times> 'f) list" where
  "positions ops r n_lon n_lat =
     (f_zero ops, r, f_zero ops)
     # concat (map (\<lambda>k. map (\<lambda>j. ring_vertex ops r n_lon n_lat (word_of_nat k) (word_of_nat j))
                            [0..<unat n_lon])
                  [1..<unat n_lat])
     @ [(f_zero ops, f_neg ops r, f_zero ops)]"

text \<open>The untouched rest of the buffer: \<open>n\<close> records of zeros.\<close>

definition zeros :: "'f float_ops \<Rightarrow> nat \<Rightarrow> 'f list" where
  "zeros ops n = replicate (6 * n) (f_zero ops)"

text \<open>The vertex count as a natural number, and the condition that the size of the buffer, \<open>6\<close> floats for each vertex, is below \<open>2 ^ 32\<close>.\<close>

definition n_vertices :: "u32 \<Rightarrow> u32 \<Rightarrow> nat" where
  "n_vertices n_lon n_lat = 2 + unat n_lon * (unat n_lat - 1)"

definition fits :: "u32 \<Rightarrow> u32 \<Rightarrow> bool" where
  "fits n_lon n_lat \<longleftrightarrow> 6 * n_vertices n_lon n_lat < 2 ^ 32"

text \<open>The index list read three by three, and back.\<close>

fun triples :: "'a list \<Rightarrow> ('a \<times> 'a \<times> 'a) list" where
  "triples (a # b # c # xs) = (a, b, c) # triples xs"
| "triples xs = []"

definition flat :: "('a \<times> 'a \<times> 'a) list \<Rightarrow> 'a list" where
  "flat ts = concat (map (\<lambda>(a, b, c). [a, b, c]) ts)"

text \<open>The triangles of the three parts of the index list over the natural numbers: north cap, body band \<open>b\<close> (its quads for \<open>i = 1, \<dots>, L - 1\<close>, then the closing quad), south cap.\<close>

definition tri_north :: "nat \<Rightarrow> (nat \<times> nat \<times> nat) list" where
  "tri_north L = map (\<lambda>i. (0, i + 1, i)) [1..<L] @ [(0, 1, L)]"

definition tri_quad :: "nat \<Rightarrow> nat \<Rightarrow> nat \<Rightarrow> (nat \<times> nat \<times> nat) list" where
  "tri_quad L b i =
     [(i + b * L, i + b * L + 1, i + L + b * L),
      (i + b * L + 1, i + L + b * L + 1, i + L + b * L)]"

definition tri_band :: "nat \<Rightarrow> nat \<Rightarrow> (nat \<times> nat \<times> nat) list" where
  "tri_band L b =
     concat (map (tri_quad L b) [1..<L])
     @ [(1 + b * L, 1 + b * L + L, L + b * L), (L + b * L, 1 + b * L + L, L + b * L + L)]"

definition tri_south :: "nat \<Rightarrow> nat \<Rightarrow> (nat \<times> nat \<times> nat) list" where
  "tri_south L M =
     (let e = L * (M - 1) + 1 in
      map (\<lambda>i. (e, e - (i + 1), e - i)) [1..<L] @ [(e, e - 1, e - L)])"

definition triangles :: "nat \<Rightarrow> nat \<Rightarrow> (nat \<times> nat \<times> nat) list" where
  "triangles L M = tri_north L @ concat (map (tri_band L) [0..<M - 2]) @ tri_south L M"

text \<open>The index list over \<^verbatim>\<open>unsigned int\<close>, as the loops of \<^verbatim>\<open>set_indices\<close> append it.\<close>

definition band :: "u32 \<Rightarrow> u32 \<Rightarrow> u32 list" where
  "band n b =
     concat (map (\<lambda>i. [i + b * n, i + b * n + 1, i + n + b * n,
                        i + b * n + 1, i + n + b * n + 1, i + n + b * n])
                 (map word_of_nat [1..<unat n]))
     @ [1 + b * n, 1 + b * n + n, n + b * n, n + b * n, 1 + b * n + n, n + b * n + n]"

definition indices_of :: "u32 \<Rightarrow> u32 \<Rightarrow> u32 list" where
  "indices_of n m =
     (let e = n * (m - 1) + 1 in
      concat (map (\<lambda>i. [0, i + 1, i]) (map word_of_nat [1..<unat n])) @ [0, 1, n]
      @ concat (map (band n) (map word_of_nat [0..<unat (m - 2)]))
      @ concat (map (\<lambda>i. [e, e - (i + 1), e - i]) (map word_of_nat [1..<unat n]))
      @ [e, e - 1, e - n])"

text \<open>Vertex \<open>v\<close> of the buffer: floats \<open>0..2\<close> of its record are the position, floats \<open>3..5\<close> the normal.\<close>

definition vertex_position :: "'f sphere \<Rightarrow> nat \<Rightarrow> 'f \<times> 'f \<times> 'f" where
  "vertex_position s v =
     (m_vertexes s ! (6 * v), m_vertexes s ! (6 * v + 1), m_vertexes s ! (6 * v + 2))"

definition vertex_normal :: "'f sphere \<Rightarrow> nat \<Rightarrow> 'f \<times> 'f \<times> 'f" where
  "vertex_normal s v =
     (m_vertexes s ! (6 * v + 3), m_vertexes s ! (6 * v + 4), m_vertexes s ! (6 * v + 5))"

text \<open>The Euclidean length of a vector.\<close>

definition norm3 :: "real \<times> real \<times> real \<Rightarrow> real" where
  "norm3 p = (case p of (x, y, z) \<Rightarrow> sqrt (x * x + y * y + z * z))"

text \<open>The split of a body band as the specification words it: for every longitude offset \<open>j\<close>, the closing one included, the quad with upper vertices \<open>p0\<close>, \<open>p1\<close> (at offsets \<open>j\<close> and \<open>j + 1\<close> modulo the longitude count) and lower vertices \<open>p2\<close>, \<open>p3\<close> at the same offsets is split into \<open>(p0, p1, p2)\<close> and \<open>(p1, p3, p2)\<close>.\<close>

definition spec_band :: "nat \<Rightarrow> nat \<Rightarrow> (nat \<times> nat \<times> nat) list" where
  "spec_band L b =
     concat (map (\<lambda>j. let p0 = 1 + b * L + j;
                          p1 = 1 + b * L + (j + 1) mod L;
                          p2 = p0 + L;
                          p3 = p1 + L
                      in [(p0, p1, p2), (p1, p3, p2)])
                 [0..<L])"

text \<open>The number of triples that reference vertex \<open>v\<close>.\<close>

definition refs :: "nat \<Rightarrow> (nat \<times> nat \<times> nat) list \<Rightarrow> nat" where
  "refs v T = length (filter (\<lambda>(a, b, c). v = a \<or> v = b \<or> v = c) T)"

text \<open>A body band whose upper ring starts after index \<open>o\<close>.\<close>

definition band_at :: "nat \<Rightarrow> nat \<Rightarrow> (nat \<times> nat \<times> nat) list" where
  "band_at L o' =
     concat (map (\<lambda>i. [(i + o', i + o' + 1, i + L + o'), (i + o' + 1, i + L + o' + 1, i + L + o')])
                 [1..<L])
     @ [(1 + o', 1 + o' + L, L + o'), (L + o', 1 + o' + L, L + o' + L)]"


text \<open>The point of the sphere of radius \<open>r\<close> at azimuth \<open>t\<close> and polar angle \<open>p\<close>.\<close>

definition pt :: "real \<Rightarrow> real \<Rightarrow> real \<Rightarrow> real \<times> real \<times> real" where
  "pt r t p = (r * cos t * sin p, r * cos p, r * sin t * sin p)"

text \<open>
  The point of the sphere that vertex \<open>v\<close> stands for, as the specification gives it: the poles
  \<open>(0, r, 0)\<close> and \<open>(0, - r, 0)\<close> for the first and the last vertex, and for the vertex at index
  \<open>1 + (k - 1) * L + j\<close> the point at azimuth \<open>j * (2 * pi / L)\<close> and polar angle \<open>k * (pi / M)\<close>.
\<close>

definition sphere_point :: "real \<Rightarrow> nat \<Rightarrow> nat \<Rightarrow> nat \<Rightarrow> real \<times> real \<times> real" where
  "sphere_point r L M v =
     (if v = 0 then (0, r, 0)
      else if v = L * (M - 1) + 1 then (0, - r, 0)
      else pt r (real ((v - 1) mod L) * (2 * pi / real L))
             (real ((v - 1) div L + 1) * (pi / real M)))"





section \<open>Auxiliary lemmas\<close>

subsection \<open>Loops as folds\<close>

text \<open>
  A counted loop visits the counter values from its start to its bound, in order: it is a
  fold over them.
\<close>

lemma unat_inc: "i < n \<Longrightarrow> unat (i + 1) = Suc (unat (i::'a::len word))"
  by unat_arith

lemma for_loop_fold:
  "for_loop i n body s = fold body (map word_of_nat [unat i..<unat n]) s"
proof (induction i n body s rule: for_loop.induct)
  case (1 i n body s)
  show ?case
  proof (cases "i < n")
    case True
    then have lt: "unat i < unat n" by (simp add: word_less_nat_alt)
    have "for_loop i n body s = for_loop (i + 1) n body (body i s)"
      using True by (subst for_loop.simps) simp
    also have "\<dots> = fold body (map word_of_nat [unat (i + 1)..<unat n]) (body i s)"
      using 1 True by simp
    also have "\<dots> = fold body (map word_of_nat [unat i..<unat n]) s"
      using lt by (simp add: unat_inc [OF True] upt_conv_Cons)
    finally show ?thesis .
  next
    case False
    then have "unat n \<le> unat i" by (simp add: word_less_nat_alt)
    with False show ?thesis by (subst for_loop.simps) simp
  qed
qed

lemma for_loop_chk_fold:
  "for_loop_chk i n body s = fold_chk body (map word_of_nat [unat i..<unat n]) s"
proof (induction i n body s rule: for_loop_chk.induct)
  case (1 i n body s)
  show ?case
  proof (cases "i < n")
    case True
    then have lt: "unat i < unat n" by (simp add: word_less_nat_alt)
    have up: "[unat i..<unat n] = unat i # [unat (i + 1)..<unat n]"
      using lt by (simp add: unat_inc [OF True] upt_conv_Cons)
    show ?thesis
    proof (cases "body i s")
      case (Inl e)
      with True show ?thesis by (subst for_loop_chk.simps) (simp add: up)
    next
      case (Inr s')
      have "for_loop_chk i n body s = for_loop_chk (i + 1) n body s'"
        using True Inr by (subst for_loop_chk.simps) simp
      also have "\<dots> = fold_chk body (map word_of_nat [unat (i + 1)..<unat n]) s'"
        using 1 True Inr by simp
      finally show ?thesis using Inr by (simp add: up)
    qed
  next
    case False
    then have "unat n \<le> unat i" by (simp add: word_less_nat_alt)
    with False show ?thesis by (subst for_loop_chk.simps) simp
  qed
qed

lemma for_loop_eq_fold:
  "for_loop i n body = fold body (map word_of_nat [unat i..<unat n])"
  by (rule ext) (rule for_loop_fold)

lemma for_loop_chk_eq_fold:
  "for_loop_chk i n body = fold_chk body (map word_of_nat [unat i..<unat n])"
  by (rule ext) (rule for_loop_chk_fold)

subsection \<open>Construction when the buffer size fits\<close>

text \<open>
  When \<open>6 * (2 + longitudes * (latitudes - 1))\<close> is below \<open>2 ^ 32\<close> no product wraps. The
  passes then fill the buffer record by record: after \<open>q\<close> vertices it is \<open>q\<close> finished
  records followed by records of zeros.
\<close>

lemma length_enc_pos [simp]: "length (enc_pos ops p) = 6"
  by (cases p) (simp add: enc_pos_def)

lemma length_enc_full [simp]: "length (enc_full ops p) = 6"
  by (cases p) (simp add: enc_full_def split: prod.splits)

lemma length_concat_enc [simp]:
  "length (concat (map (enc_pos ops) ps)) = 6 * length ps"
  "length (concat (map (enc_full ops) ps)) = 6 * length ps"
  by (induction ps) simp_all

lemma unat_of_nat_u32: "n < 2 ^ 32 \<Longrightarrow> unat (word_of_nat n :: u32) = n"
  by (simp add: unat_of_nat)

lemma unat_of_nat_add_u32:
  "n + k < 2 ^ 32 \<Longrightarrow> unat (word_of_nat n + word_of_nat k :: u32) = n + k"
  by (simp flip: of_nat_add add: unat_of_nat)

lemma store3_block:
  assumes "length A = n" and "n + 6 < 2 ^ 32"
  shows "store3 (A @ replicate 6 z0 @ C) (word_of_nat n) (x, y, z)
         = Inr (A @ [x, y, z, z0, z0, z0] @ C)"
proof -
  have u0: "unat (word_of_nat n :: u32) = n"
    using assms by (simp add: unat_of_nat_u32)
  have u1: "unat (word_of_nat n + 1 :: u32) = n + 1"
    using assms unat_of_nat_add_u32 [of n 1] by simp
  have u2: "unat (word_of_nat n + 2 :: u32) = n + 2"
    using assms unat_of_nat_add_u32 [of n 2] by simp
  have r6: "replicate 6 z0 = [z0, z0, z0, z0, z0, z0]"
    by (simp add: numeral_eq_Suc)
  show ?thesis
    using assms(1)
    by (simp add: store3_def and_then_def store_def u0 u1 u2 r6 list_update_append)
qed

lemma zeros_Suc: "zeros ops (Suc n) = replicate 6 (f_zero ops) @ zeros ops n"
  by (simp add: zeros_def flip: replicate_add)

lemma length_zeros [simp]: "length (zeros ops n) = 6 * n"
  by (simp add: zeros_def)

lemma zeros_0 [simp]: "zeros ops 0 = []"
  by (simp add: zeros_def)

lemma ring_step_block:
  assumes "length A = 6 * q" and "6 * q + 6 < 2 ^ 32"
  shows "ring_step ops r n_lon n_lat k j (word_of_nat (6 * q), A @ zeros ops (Suc m))
         = Inr (word_of_nat (6 * Suc q),
                A @ enc_pos ops (ring_vertex ops r n_lon n_lat k j) @ zeros ops m)"
proof -
  obtain x y z where p: "ring_vertex ops r n_lon n_lat k j = (x, y, z)"
    by (cases "ring_vertex ops r n_lon n_lat k j")
  have "store3 (A @ replicate 6 (f_zero ops) @ zeros ops m) (word_of_nat (6 * q)) (x, y, z)
        = Inr (A @ [x, y, z, f_zero ops, f_zero ops, f_zero ops] @ zeros ops m)"
    by (rule store3_block) (use assms in auto)
  then show ?thesis
    by (simp add: ring_step_def p zeros_Suc and_then_def enc_pos_def m_n_coords_def)
qed

lemma ring_loop_blocks:
  assumes "length A = 6 * q" and "6 * (q + length js) < 2 ^ 32"
  shows "fold_chk (ring_step ops r n_lon n_lat k) js
           (word_of_nat (6 * q), A @ zeros ops (length js + m))
         = Inr (word_of_nat (6 * (q + length js)),
                A @ concat (map (\<lambda>j. enc_pos ops (ring_vertex ops r n_lon n_lat k j)) js)
                  @ zeros ops m)"
  using assms
proof (induction js arbitrary: q A)
  case Nil
  then show ?case by simp
next
  case (Cons j js)
  let ?e = "enc_pos ops (ring_vertex ops r n_lon n_lat k j)"
  have step: "ring_step ops r n_lon n_lat k j
                (word_of_nat (6 * q), A @ zeros ops (Suc (length js + m)))
              = Inr (word_of_nat (6 * Suc q), A @ ?e @ zeros ops (length js + m))"
    by (rule ring_step_block) (use Cons.prems in auto)
  have "fold_chk (ring_step ops r n_lon n_lat k) js
          (word_of_nat (6 * Suc q), (A @ ?e) @ zeros ops (length js + m))
        = Inr (word_of_nat (6 * (Suc q + length js)),
               (A @ ?e) @ concat (map (\<lambda>j. enc_pos ops (ring_vertex ops r n_lon n_lat k j)) js)
                 @ zeros ops m)"
    by (rule Cons.IH) (use Cons.prems in auto)
  with step show ?case by simp
qed

lemma rings_loop_blocks:
  assumes "length A = 6 * q" and "6 * (q + length ks * length js) < 2 ^ 32"
  shows "fold_chk (\<lambda>k. fold_chk (ring_step ops r n_lon n_lat k) js) ks
           (word_of_nat (6 * q), A @ zeros ops (length ks * length js + m))
         = Inr (word_of_nat (6 * (q + length ks * length js)),
                A @ concat (map (enc_pos ops)
                      (concat (map (\<lambda>k. map (ring_vertex ops r n_lon n_lat k) js) ks)))
                  @ zeros ops m)"
  using assms
proof (induction ks arbitrary: q A)
  case Nil
  then show ?case by simp
next
  case (Cons k ks)
  let ?ring = "concat (map (\<lambda>j. enc_pos ops (ring_vertex ops r n_lon n_lat k j)) js)"
  have len: "length ?ring = 6 * length js"
    by (induction js) simp_all
  have inner: "fold_chk (ring_step ops r n_lon n_lat k) js
                 (word_of_nat (6 * q), A @ zeros ops (length js + (length ks * length js + m)))
               = Inr (word_of_nat (6 * (q + length js)),
                      A @ ?ring @ zeros ops (length ks * length js + m))"
    by (rule ring_loop_blocks) (use Cons.prems in auto)
  have rest: "fold_chk (\<lambda>k. fold_chk (ring_step ops r n_lon n_lat k) js) ks
                (word_of_nat (6 * (q + length js)),
                 (A @ ?ring) @ zeros ops (length ks * length js + m))
              = Inr (word_of_nat (6 * (q + length js + length ks * length js)),
                     (A @ ?ring) @ concat (map (enc_pos ops)
                        (concat (map (\<lambda>k. map (ring_vertex ops r n_lon n_lat k) js) ks)))
                       @ zeros ops m)"
    by (rule Cons.IH) (use Cons.prems len in \<open>auto simp: algebra_simps\<close>)
  have eq: "?ring = concat (map (enc_pos ops) (map (ring_vertex ops r n_lon n_lat k) js))"
    by (simp add: comp_def)
  from inner rest show ?case
    by (simp add: eq algebra_simps)
qed

lemma ucast_of_nat_down: "(ucast (word_of_nat n :: size_t) :: u32) = word_of_nat n"
proof -
  have "unat (ucast (word_of_nat n :: size_t) :: u32) = unat (word_of_nat n :: u32)"
    by (simp add: unsigned_ucast_eq unat_of_nat take_bit_eq_mod mod_mod_cancel le_imp_power_dvd)
  then show ?thesis
    by (simp only: word_unat_eq_iff)
qed

lemma unat_ucast_u32: "unat (ucast (w :: u32) :: size_t) = unat w"
proof -
  have "unat w < 2 ^ 32"
    using unsigned_less [of w] by simp
  then have "unat w < 2 ^ 64"
    by simp
  then show ?thesis
    by (simp add: unsigned_ucast_eq take_bit_nat_eq_self)
qed

lemma normal_step_block:
  assumes "length A = 6 * q" and "6 * q + 6 < 2 ^ 32"
  shows "normal_step ops (word_of_nat q) (A @ enc_pos ops p @ C) = Inr (A @ enc_full ops p @ C)"
proof -
  obtain x y z where p: "p = (x, y, z)" by (cases p)
  obtain nx ny nz where n: "f_normalize ops (x, y, z) = (nx, ny, nz)"
    by (cases "f_normalize ops (x, y, z)")
  have ic: "(ucast (ucast m_n_coords * (word_of_nat q :: size_t)) :: u32) = word_of_nat (6 * q)"
  proof -
    have "ucast m_n_coords * (word_of_nat q :: size_t) = word_of_nat (6 * q)"
      by (simp add: m_n_coords_def)
    then show ?thesis
      by (simp only: ucast_of_nat_down)
  qed
  have u: "unat (word_of_nat (6 * q) + word_of_nat k :: u32) = 6 * q + k" if "k < 6" for k
    using that assms(2) by (intro unat_of_nat_add_u32) simp
  have u0: "unat (word_of_nat (6 * q) :: u32) = 6 * q"
    using u [of 0] by simp
  show ?thesis
    using assms(1) u [of 1] u [of 2] u [of 3] u [of 4] u [of 5] u0
    by (simp add: normal_step_def ic p n enc_pos_def enc_full_def and_then_def load_def store_def
        nth_append list_update_append)
qed

lemma normals_loop_blocks:
  assumes "length A = 6 * q" and "6 * (q + length ps) < 2 ^ 32"
  shows "fold_chk (normal_step ops) (map word_of_nat [q..<q + length ps])
           (A @ concat (map (enc_pos ops) ps) @ C)
         = Inr (A @ concat (map (enc_full ops) ps) @ C)"
  using assms
proof (induction ps arbitrary: q A)
  case Nil
  then show ?case by simp
next
  case (Cons p ps)
  have up: "[q..<Suc (q + length ps)] = q # [Suc q..<Suc (q + length ps)]"
    using upt_rec [of q "Suc (q + length ps)"] by (simp del: upt_Suc)
  have step: "normal_step ops (word_of_nat q) (A @ enc_pos ops p @ concat (map (enc_pos ops) ps) @ C)
              = Inr (A @ enc_full ops p @ concat (map (enc_pos ops) ps) @ C)"
    by (rule normal_step_block) (use Cons.prems in auto)
  have rest: "fold_chk (normal_step ops) (map word_of_nat [Suc q..<Suc q + length ps])
                ((A @ enc_full ops p) @ concat (map (enc_pos ops) ps) @ C)
              = Inr ((A @ enc_full ops p) @ concat (map (enc_full ops) ps) @ C)"
    by (rule Cons.IH) (use Cons.prems in auto)
  from step rest show ?case
    by (simp add: up del: upt_Suc)
qed

lemma length_positions:
  "length (positions ops r n_lon n_lat) = n_vertices n_lon n_lat"
  by (simp add: positions_def n_vertices_def length_concat comp_def sum_list_triv)

lemma word_n_vertexes:
  assumes "1 \<le> n_lat"
  shows "1 + n_lon * (n_lat - 1) + 1 = (word_of_nat (n_vertices n_lon n_lat) :: u32)"
proof -
  have "1 \<le> unat n_lat"
    using assms by (simp add: word_le_nat_alt)
  then have "(word_of_nat (unat n_lat - 1) :: u32) = n_lat - 1"
    by (simp add: of_nat_diff)
  then show ?thesis
    by (simp add: n_vertices_def)
qed

lemma init_sphere_fits:
  assumes "1 \<le> n_lat" and "fits n_lon n_lat"
  shows "init_sphere ops r n_lon n_lat =
           \<lparr> m_radius = r, m_n_longitudes = n_lon, m_n_latitudes = n_lat,
             m_n_vertexes = word_of_nat (n_vertices n_lon n_lat),
             m_vertexes = zeros ops (n_vertices n_lon n_lat),
             m_indices = [] \<rparr>"
proof -
  have "m_n_coords * (word_of_nat (n_vertices n_lon n_lat) :: u32)
        = word_of_nat (6 * n_vertices n_lon n_lat)"
    by (simp add: m_n_coords_def)
  then have "unat (m_n_coords * (word_of_nat (n_vertices n_lon n_lat) :: u32))
             = 6 * n_vertices n_lon n_lat"
    using assms(2) by (simp only: fits_def unat_of_nat_u32)
  then show ?thesis
    by (simp add: init_sphere_def Let_def word_n_vertexes [OF assms(1)] zeros_def)
qed

lemma set_vertexes_fits:
  assumes "1 \<le> n_lat" and "fits n_lon n_lat"
  shows "set_vertexes ops (init_sphere ops r n_lon n_lat)
         = Inr ((init_sphere ops r n_lon n_lat)
                  \<lparr>m_vertexes := concat (map (enc_pos ops) (positions ops r n_lon n_lat))\<rparr>)"
proof -
  let ?L = "unat n_lon" and ?M = "unat n_lat"
  let ?north = "(f_zero ops, r, f_zero ops)" and ?south = "(f_zero ops, f_neg ops r, f_zero ops)"
  let ?ks = "map word_of_nat [1..<?M] :: size_t list"
  let ?js = "map word_of_nat [0..<?L] :: size_t list"
  let ?rings = "concat (map (\<lambda>k. map (ring_vertex ops r n_lon n_lat k) ?js) ?ks)"
  have M: "1 \<le> ?M"
    using assms(1) by (simp add: word_le_nat_alt)
  have N: "n_vertices n_lon n_lat = Suc (length ?ks * length ?js + 1)"
    by (simp add: n_vertices_def)
  have small: "6 * (1 + length ?ks * length ?js) + 6 < 2 ^ 32"
    using assms(2) by (simp add: fits_def n_vertices_def)
  define A where "A = enc_pos ops ?north @ concat (map (enc_pos ops) ?rings)"
  have lenA: "length A = 6 * (1 + length ?ks * length ?js)"
    by (simp add: A_def length_concat comp_def sum_list_triv)
  have north: "store3 (zeros ops (n_vertices n_lon n_lat)) 0 ?north
               = Inr (enc_pos ops ?north @ zeros ops (length ?ks * length ?js + 1))"
    using store3_block [of "[]" 0 "f_zero ops" "zeros ops (length ?ks * length ?js + 1)"]
    by (simp add: N zeros_Suc enc_pos_def del: replicate_Suc)
  have loops: "for_loop_chk 1 (ucast n_lat)
                 (\<lambda>i_lat. for_loop_chk 0 (ucast n_lon) (ring_step ops r n_lon n_lat i_lat))
                 (m_n_coords, enc_pos ops ?north @ zeros ops (length ?ks * length ?js + 1))
               = Inr (word_of_nat (6 * (1 + length ?ks * length ?js)),
                      A @ zeros ops 1)"
  proof -
    have "fold_chk (\<lambda>k. fold_chk (ring_step ops r n_lon n_lat k) ?js) ?ks
            (word_of_nat (6 * 1), enc_pos ops ?north @ zeros ops (length ?ks * length ?js + 1))
          = Inr (word_of_nat (6 * (1 + length ?ks * length ?js)),
                 enc_pos ops ?north @ concat (map (enc_pos ops) ?rings) @ zeros ops 1)"
      by (rule rings_loop_blocks) (use small in auto)
    then show ?thesis
      by (simp add: for_loop_chk_eq_fold unat_ucast_u32 m_n_coords_def A_def)
  qed
  have "store3 (A @ replicate 6 (f_zero ops) @ []) (word_of_nat (6 * (1 + length ?ks * length ?js)))
          (f_zero ops, f_neg ops r, f_zero ops)
        = Inr (A @ [f_zero ops, f_neg ops r, f_zero ops, f_zero ops, f_zero ops, f_zero ops] @ [])"
    using lenA small by (rule store3_block)
  then have south: "store3 (A @ zeros ops 1) (word_of_nat (6 * (1 + length ?ks * length ?js))) ?south
                    = Inr (A @ enc_pos ops ?south)"
    by (simp add: zeros_def enc_pos_def del: replicate_Suc)
  have pos: "positions ops r n_lon n_lat = ?north # ?rings @ [?south]"
    by (simp add: positions_def comp_def)
  from north loops south show ?thesis
    by (simp add: set_vertexes_def Let_def init_sphere_fits [OF assms] pos and_then_def A_def)
qed

lemma set_indices_fields [simp]:
  "m_vertexes (set_indices s) = m_vertexes s"
  "m_n_vertexes (set_indices s) = m_n_vertexes s"
  "m_radius (set_indices s) = m_radius s"
  "m_n_longitudes (set_indices s) = m_n_longitudes s"
  "m_n_latitudes (set_indices s) = m_n_latitudes s"
  by (simp_all add: set_indices_def Let_def)

lemma set_normals_blocks:
  assumes "m_vertexes s = concat (map (enc_pos ops) ps)"
    and "m_n_vertexes s = word_of_nat (length ps)"
    and "6 * length ps < 2 ^ 32"
  shows "set_normals ops s = Inr (s\<lparr>m_vertexes := concat (map (enc_full ops) ps)\<rparr>)"
proof -
  have "unat (word_of_nat (length ps) :: u32) = length ps"
    using assms(3) by (simp add: unat_of_nat_u32)
  then have n: "unat (ucast (m_n_vertexes s) :: size_t) = length ps"
    by (simp add: assms(2) unat_ucast_u32)
  have "fold_chk (normal_step ops) (map word_of_nat [0..<0 + length ps])
          ([] @ concat (map (enc_pos ops) ps) @ [])
        = Inr ([] @ concat (map (enc_full ops) ps) @ [])"
    by (rule normals_loop_blocks) (use assms(3) in auto)
  then show ?thesis
    by (simp add: set_normals_def for_loop_chk_eq_fold n assms(1) and_then_def)
qed

lemma Sphere_fits:
  assumes "1 \<le> n_lat" and "fits n_lon n_lat"
  shows "Sphere ops r n_lon n_lat
         = Inr ((set_indices (init_sphere ops r n_lon n_lat))
                  \<lparr>m_vertexes := concat (map (enc_full ops) (positions ops r n_lon n_lat))\<rparr>)"
proof -
  let ?s = "(init_sphere ops r n_lon n_lat)
              \<lparr>m_vertexes := concat (map (enc_pos ops) (positions ops r n_lon n_lat))\<rparr>"
  have "set_normals ops (set_indices ?s)
        = Inr ((set_indices ?s)
                 \<lparr>m_vertexes := concat (map (enc_full ops) (positions ops r n_lon n_lat))\<rparr>)"
  proof (rule set_normals_blocks)
    show "m_vertexes (set_indices ?s) = concat (map (enc_pos ops) (positions ops r n_lon n_lat))"
      by simp
    show "m_n_vertexes (set_indices ?s) = word_of_nat (length (positions ops r n_lon n_lat))"
      by (simp add: init_sphere_fits [OF assms] length_positions)
    show "6 * length (positions ops r n_lon n_lat) < 2 ^ 32"
      using assms(2) by (simp add: fits_def length_positions)
  qed
  moreover have "(set_indices ?s)
                   \<lparr>m_vertexes := concat (map (enc_full ops) (positions ops r n_lon n_lat))\<rparr>
                 = (set_indices (init_sphere ops r n_lon n_lat))
                   \<lparr>m_vertexes := concat (map (enc_full ops) (positions ops r n_lon n_lat))\<rparr>"
    by (simp add: set_indices_def Let_def)
  ultimately show ?thesis
    by (simp add: Sphere_def set_vertexes_fits [OF assms] and_then_def)
qed

subsection \<open>Construction faults when the buffer size does not fit\<close>

text \<open>
  A pass that returns has made all its stores within the buffer. The store of vertex
  \<open>715827882\<close> ends at index \<open>2 ^ 32 - 2\<close>, and the size of the buffer, an even number below
  \<open>2 ^ 32\<close>, is at most that.
\<close>

lemma store_InrD:
  "store vs i x = Inr vs' \<Longrightarrow> unat i < length vs \<and> length vs' = length vs"
  by (auto simp: store_def split: if_splits)

lemma store3_InrD:
  assumes "store3 vs i p = Inr vs'"
  shows "unat (i + 2) < length vs \<and> length vs' = length vs"
proof -
  obtain x y z where p: "p = (x, y, z)" by (cases p)
  from assms obtain v1 v2 where
    "store vs i x = Inr v1" "store v1 (i + 1) y = Inr v2" "store v2 (i + 2) z = Inr vs'"
    by (auto simp: store3_def p and_then_def split: sum.splits)
  then show ?thesis
    by (auto dest!: store_InrD)
qed

lemma ring_step_InrD:
  assumes "ring_step ops r n_lon n_lat k j (ic, vs) = Inr (ic', vs')"
  shows "ic' = ic + 6 \<and> length vs' = length vs \<and> unat (ic + 2) < length vs"
  using assms
  by (auto simp: ring_step_def and_then_def m_n_coords_def split: sum.splits dest!: store3_InrD)

lemma ring_loop_InrD:
  assumes "fold_chk (ring_step ops r n_lon n_lat k) js (ic, vs) = Inr (ic', vs')"
  shows "ic' = ic + word_of_nat (6 * length js) \<and> length vs' = length vs \<and>
         (\<forall>t < length js. unat (ic + word_of_nat (6 * t) + 2) < length vs)"
  using assms
proof (induction js arbitrary: ic vs)
  case Nil
  then show ?case by simp
next
  case (Cons j js)
  from Cons.prems obtain ic1 vs1 where
    step: "ring_step ops r n_lon n_lat k j (ic, vs) = Inr (ic1, vs1)" and
    rest: "fold_chk (ring_step ops r n_lon n_lat k) js (ic1, vs1) = Inr (ic', vs')"
    by (auto split: sum.splits)
  from ring_step_InrD [OF step] have
    s: "ic1 = ic + 6" "length vs1 = length vs" "unat (ic + 2) < length vs"
    by auto
  from Cons.IH [OF rest] have
    r: "ic' = ic1 + word_of_nat (6 * length js)" "length vs' = length vs1"
       "\<forall>t < length js. unat (ic1 + word_of_nat (6 * t) + 2) < length vs1"
    by auto
  have "unat (ic + word_of_nat (6 * t) + 2) < length vs" if "t < length (j # js)" for t
  proof (cases t)
    case 0
    with s show ?thesis by simp
  next
    case (Suc t')
    with that r(3) have "unat (ic1 + word_of_nat (6 * t') + 2) < length vs1" by simp
    then show ?thesis
      by (simp add: s Suc algebra_simps)
  qed
  moreover have "ic' = ic + word_of_nat (6 * length (j # js))"
    by (simp add: r s algebra_simps)
  ultimately show ?case
    using r s by simp
qed

lemma rings_loop_InrD:
  assumes "fold_chk (\<lambda>k. fold_chk (ring_step ops r n_lon n_lat k) js) ks (ic, vs) = Inr (ic', vs')"
  shows "ic' = ic + word_of_nat (6 * (length ks * length js)) \<and> length vs' = length vs \<and>
         (\<forall>t < length ks * length js. unat (ic + word_of_nat (6 * t) + 2) < length vs)"
  using assms
proof (induction ks arbitrary: ic vs)
  case Nil
  then show ?case by simp
next
  case (Cons k ks)
  from Cons.prems obtain ic1 vs1 where
    ring: "fold_chk (ring_step ops r n_lon n_lat k) js (ic, vs) = Inr (ic1, vs1)" and
    rest: "fold_chk (\<lambda>k. fold_chk (ring_step ops r n_lon n_lat k) js) ks (ic1, vs1) = Inr (ic', vs')"
    by (auto split: sum.splits)
  from ring_loop_InrD [OF ring] have
    s: "ic1 = ic + word_of_nat (6 * length js)" "length vs1 = length vs"
       "\<forall>t < length js. unat (ic + word_of_nat (6 * t) + 2) < length vs"
    by auto
  from Cons.IH [OF rest] have
    r: "ic' = ic1 + word_of_nat (6 * (length ks * length js))" "length vs' = length vs1"
       "\<forall>t < length ks * length js. unat (ic1 + word_of_nat (6 * t) + 2) < length vs1"
    by auto
  have "unat (ic + word_of_nat (6 * t) + 2) < length vs" if "t < length (k # ks) * length js" for t
  proof (cases "t < length js")
    case True
    with s show ?thesis by simp
  next
    case False
    then obtain t' where t: "t = length js + t'"
      by (metis le_add_diff_inverse not_less)
    with that have "t' < length ks * length js" by simp
    with r(3) have "unat (ic1 + word_of_nat (6 * t') + 2) < length vs1" by simp
    then show ?thesis
      by (simp add: s t algebra_simps)
  qed
  moreover have "ic' = ic + word_of_nat (6 * (length (k # ks) * length js))"
    by (simp add: r s algebra_simps)
  ultimately show ?case
    using r s by simp
qed

lemma set_vertexes_InrD:
  assumes "set_vertexes ops s = Inr s'" and "1 \<le> m_n_latitudes s"
  shows "\<forall>t < n_vertices (m_n_longitudes s) (m_n_latitudes s).
           unat (word_of_nat (6 * t) + 2 :: u32) < length (m_vertexes s)"
proof -
  let ?L = "unat (m_n_longitudes s)" and ?M = "unat (m_n_latitudes s)"
  let ?ks = "map word_of_nat [1..<?M] :: size_t list"
  let ?js = "map word_of_nat [0..<?L] :: size_t list"
  let ?R = "(?M - 1) * ?L"
  from assms(1) obtain v1 ic2 v2 v3 where
    north: "store3 (m_vertexes s) 0 (f_zero ops, m_radius s, f_zero ops) = Inr v1" and
    loops: "fold_chk (\<lambda>k. fold_chk (ring_step ops (m_radius s) (m_n_longitudes s) (m_n_latitudes s) k) ?js)
              ?ks (6, v1) = Inr (ic2, v2)" and
    south: "store3 v2 ic2 (f_zero ops, f_neg ops (m_radius s), f_zero ops) = Inr v3"
    by (auto simp: set_vertexes_def Let_def and_then_def for_loop_chk_eq_fold unat_ucast_u32
        m_n_coords_def split: sum.splits prod.splits)
  from store3_InrD [OF north] have
    n: "unat (0 + 2 :: u32) < length (m_vertexes s)" "length v1 = length (m_vertexes s)"
    by auto
  from rings_loop_InrD [OF loops] have
    l: "ic2 = 6 + word_of_nat (6 * ?R)" "length v2 = length v1"
       "\<forall>t < ?R. unat (6 + word_of_nat (6 * t) + 2 :: u32) < length v1"
    by auto
  from store3_InrD [OF south] have
    so: "unat (ic2 + 2) < length v2"
    by auto
  show ?thesis
  proof (intro allI impI)
    fix t
    assume t: "t < n_vertices (m_n_longitudes s) (m_n_latitudes s)"
    then have tR: "t < 2 + ?R"
      by (simp add: n_vertices_def mult.commute)
    consider "t = 0" | t' where "t = Suc t'" "t' < ?R" | "t = Suc ?R"
      using tR by (cases t) (auto simp: less_Suc_eq)
    then show "unat (word_of_nat (6 * t) + 2 :: u32) < length (m_vertexes s)"
    proof cases
      case 1
      with n show ?thesis by simp
    next
      case 2
      with l(3) have "unat (6 + word_of_nat (6 * t') + 2 :: u32) < length v1" by simp
      then show ?thesis
        by (simp add: 2 n algebra_simps)
    next
      case 3
      from so have "unat (6 + word_of_nat (6 * ?R) + 2 :: u32) < length v2"
        by (simp add: l)
      then show ?thesis
        by (simp add: 3 l n algebra_simps)
    qed
  qed
qed

lemma even_size_bound:
  fixes w :: u32
  shows "unat (6 * w) \<le> 2 ^ 32 - 2"
proof -
  have "unat (6 * w) = (6 * unat w) mod 2 ^ 32"
    by (simp add: unat_word_ariths)
  then have "unat (6 * w) mod 2 = 0"
    by (simp add: mod_mod_cancel)
  moreover have "unat (6 * w) < 2 ^ 32"
    using unsigned_less [of "6 * w"] by simp
  ultimately have "unat (6 * w) mod 2 = 0 \<and> unat (6 * w) < 4294967296"
    by simp
  then have "unat (6 * w) \<le> 4294967294"
    by presburger
  then show ?thesis
    by simp
qed

lemma Sphere_Inr_fits:
  assumes "Sphere ops r n_lon n_lat = Inr s" and "1 \<le> n_lat"
  shows "fits n_lon n_lat"
proof (rule ccontr)
  assume nf: "\<not> fits n_lon n_lat"
  let ?s0 = "init_sphere ops r n_lon n_lat"
  from assms(1) obtain s1 where sv: "set_vertexes ops ?s0 = Inr s1"
    by (auto simp: Sphere_def and_then_def split: sum.splits)
  have f: "m_n_longitudes ?s0 = n_lon" "m_n_latitudes ?s0 = n_lat"
    by (simp_all add: init_sphere_def Let_def)
  have "m_vertexes ?s0 = replicate (unat (6 * (1 + n_lon * (n_lat - 1) + 1))) (f_zero ops)"
    by (simp add: init_sphere_def Let_def m_n_coords_def)
  then have "length (m_vertexes ?s0) = unat (6 * (1 + n_lon * (n_lat - 1) + 1))"
    by (simp only: length_replicate)
  then have len: "length (m_vertexes ?s0) \<le> 2 ^ 32 - 2"
    by (simp only: even_size_bound)
  from nf have "715827882 < n_vertices n_lon n_lat"
    by (simp add: fits_def)
  moreover have "\<forall>t < n_vertices n_lon n_lat.
      unat (word_of_nat (6 * t) + 2 :: u32) < length (m_vertexes ?s0)"
  proof -
    have "1 \<le> m_n_latitudes ?s0"
      using assms(2) by (simp only: f)
    from set_vertexes_InrD [OF sv this] show ?thesis
      by (simp only: f)
  qed
  ultimately have "unat (word_of_nat (6 * 715827882) + 2 :: u32) < length (m_vertexes ?s0)"
    by blast
  moreover have "unat (word_of_nat (6 * 715827882) + 2 :: u32) = 2 ^ 32 - 2"
    by simp
  ultimately show False
    using len by simp
qed

subsection \<open>The index list in closed form\<close>

lemma triples_flat [simp]: "triples (flat ts) = ts"
  by (induction ts) (auto simp: flat_def)

lemma flat_append [simp]: "flat (xs @ ys) = flat xs @ flat ys"
  by (simp add: flat_def)

lemma flat_Cons [simp]: "flat ((a, b, c) # ts) = a # b # c # flat ts"
  by (simp add: flat_def)

lemma flat_Nil [simp]: "flat [] = []"
  by (simp add: flat_def)

lemma length_flat [simp]: "length (flat ts) = 3 * length ts"
  by (induction ts) auto

lemma fold_snoc_concat:
  assumes "\<And>x acc. g x acc = acc @ f x"
  shows "fold g xs acc = acc @ concat (map f xs)"
  by (induction xs arbitrary: acc) (simp_all add: assms)

lemma for_loop_snoc_concat:
  assumes "\<And>x acc. g x acc = acc @ f x" and "unat i = a"
  shows "for_loop i n g acc = acc @ concat (map f (map word_of_nat [a..<unat n]))"
  unfolding for_loop_eq_fold assms(2) using assms(1) by (rule fold_snoc_concat)

lemma north_loop:
  "for_loop 1 n north_step idx
   = idx @ concat (map (\<lambda>i. [0, i + 1, i]) (map word_of_nat [1..<unat n]))"
  by (rule for_loop_snoc_concat) (simp_all add: north_step_def)

lemma quad_loop:
  "for_loop 1 n (quad_step n b) idx
   = idx @ concat (map (\<lambda>i. [i + b * n, i + b * n + 1, i + n + b * n,
                              i + b * n + 1, i + n + b * n + 1, i + n + b * n])
                       (map word_of_nat [1..<unat n]))"
  by (rule for_loop_snoc_concat) (simp_all add: quad_step_def Let_def)

lemma band_loop:
  "for_loop 0 m (band_step n) idx = idx @ concat (map (band n) (map word_of_nat [0..<unat m]))"
  by (rule for_loop_snoc_concat) (simp_all add: band_step_def Let_def quad_loop band_def)

lemma south_loop:
  "for_loop 1 n (south_step e) idx
   = idx @ concat (map (\<lambda>i. [e, e - (i + 1), e - i]) (map word_of_nat [1..<unat n]))"
  by (rule for_loop_snoc_concat) (simp_all add: south_step_def)

lemma set_indices_closed:
  "m_indices (set_indices s) = m_indices s @ indices_of (m_n_longitudes s) (m_n_latitudes s)"
  by (simp add: set_indices_def Let_def north_loop band_loop south_loop indices_of_def
      del: map_map)

lemma unat_eqI: "x < 2 ^ 32 \<Longrightarrow> w = word_of_nat x \<Longrightarrow> unat (w :: u32) = x"
  by (simp add: unat_of_nat)

lemma unat_lt_u32: "unat (w :: u32) < 2 ^ 32"
  using unsigned_less [of w] by simp

lemma map_unat_flat_concat:
  assumes "\<And>i. i \<in> set xs \<Longrightarrow> map unat (f (word_of_nat i)) = flat (g i)"
  shows "map unat (concat (map f (map word_of_nat xs))) = flat (concat (map g xs))"
  using assms by (induction xs) auto

lemma map_unat_flat_map:
  assumes "\<And>i. i \<in> set xs \<Longrightarrow> map unat (f (word_of_nat i)) = flat [g i]"
  shows "map unat (concat (map f (map word_of_nat xs))) = flat (map g xs)"
  using assms by (induction xs) (auto simp: flat_def)

lemma north_nat:
  "map unat (concat (map (\<lambda>i. [0, i + 1, i]) (map word_of_nat [1..<unat n])) @ [0, 1, n :: u32])
   = flat (tri_north (unat n))"
proof -
  have "map unat (concat (map (\<lambda>i. [0, i + 1, i :: u32]) (map word_of_nat [1..<unat n])))
        = flat (map (\<lambda>i. (0, i + 1, i)) [1..<unat n])"
  proof (rule map_unat_flat_map)
    fix i assume "i \<in> set [1..<unat n]"
    then have "i + 1 < 2 ^ 32"
      using unat_lt_u32 [of n] by simp
    then have "unat (word_of_nat i + 1 :: u32) = i + 1" "unat (word_of_nat i :: u32) = i"
      by (auto intro!: unat_eqI)
    then show "map unat [0, word_of_nat i + 1, word_of_nat i :: u32] = flat [(0, i + 1, i)]"
      by simp
  qed
  then show ?thesis
    by (simp only: tri_north_def flat_append map_append) simp
qed

lemma quad_nat:
  fixes n :: u32
  assumes "i + unat n + b * unat n + 1 < 2 ^ 32"
  shows "map unat [word_of_nat i + word_of_nat b * n, word_of_nat i + word_of_nat b * n + 1,
                   word_of_nat i + n + word_of_nat b * n,
                   word_of_nat i + word_of_nat b * n + 1, word_of_nat i + n + word_of_nat b * n + 1,
                   word_of_nat i + n + word_of_nat b * n]
         = flat (tri_quad (unat n) b i)"
proof -
  have "unat (word_of_nat i + word_of_nat b * n) = i + b * unat n"
    by (rule unat_eqI) (use assms in simp_all)
  moreover have "unat (word_of_nat i + word_of_nat b * n + 1) = i + b * unat n + 1"
    by (rule unat_eqI) (use assms in simp_all)
  moreover have "unat (word_of_nat i + n + word_of_nat b * n) = i + unat n + b * unat n"
    by (rule unat_eqI) (use assms in simp_all)
  moreover have "unat (word_of_nat i + n + word_of_nat b * n + 1) = i + unat n + b * unat n + 1"
    by (rule unat_eqI) (use assms in simp_all)
  ultimately show ?thesis
    by (simp add: tri_quad_def)
qed

lemma band_nat:
  fixes n :: u32
  assumes "(b + 2) * unat n + 1 < 2 ^ 32"
  shows "map unat (band n (word_of_nat b)) = flat (tri_band (unat n) b)"
proof -
  have q: "map unat (concat (map (\<lambda>i. [i + word_of_nat b * n, i + word_of_nat b * n + 1,
                   i + n + word_of_nat b * n,
                   i + word_of_nat b * n + 1, i + n + word_of_nat b * n + 1,
                   i + n + word_of_nat b * n]) (map word_of_nat [1..<unat n])))
         = flat (concat (map (tri_quad (unat n) b) [1..<unat n]))"
  proof (rule map_unat_flat_concat)
    fix i assume "i \<in> set [1..<unat n]"
    then have "i + unat n + b * unat n + 1 < 2 ^ 32"
      using assms by (simp add: algebra_simps)
    then show "map unat [word_of_nat i + word_of_nat b * n, word_of_nat i + word_of_nat b * n + 1,
                   word_of_nat i + n + word_of_nat b * n,
                   word_of_nat i + word_of_nat b * n + 1, word_of_nat i + n + word_of_nat b * n + 1,
                   word_of_nat i + n + word_of_nat b * n]
         = flat (tri_quad (unat n) b i)"
      by (rule quad_nat)
  qed
  have "unat (1 + word_of_nat b * n) = 1 + b * unat n"
    by (rule unat_eqI) (use assms in simp_all)
  moreover have "unat (1 + word_of_nat b * n + n) = 1 + b * unat n + unat n"
    by (rule unat_eqI) (use assms in simp_all)
  moreover have "unat (n + word_of_nat b * n) = unat n + b * unat n"
    by (rule unat_eqI) (use assms in simp_all)
  moreover have "unat (n + word_of_nat b * n + n) = unat n + b * unat n + unat n"
    by (rule unat_eqI) (use assms in simp_all)
  ultimately have w: "map unat [1 + word_of_nat b * n, 1 + word_of_nat b * n + n, n + word_of_nat b * n,
                     n + word_of_nat b * n, 1 + word_of_nat b * n + n, n + word_of_nat b * n + n]
        = flat [(1 + b * unat n, 1 + b * unat n + unat n, unat n + b * unat n),
                (unat n + b * unat n, 1 + b * unat n + unat n, unat n + b * unat n + unat n)]"
    by (simp only: list.map flat_Cons flat_Nil)
  show ?thesis
    by (simp only: band_def tri_band_def map_append q w flat_append)
qed

lemma south_nat:
  fixes n m :: u32
  assumes "2 \<le> unat m" and "unat n * (unat m - 1) + 1 < 2 ^ 32"
  shows "map unat (concat (map (\<lambda>i. [n * (m - 1) + 1, n * (m - 1) + 1 - (i + 1), n * (m - 1) + 1 - i])
                          (map word_of_nat [1..<unat n]))
                   @ [n * (m - 1) + 1, n * (m - 1) + 1 - 1, n * (m - 1) + 1 - n])
         = flat (tri_south (unat n) (unat m))"
proof -
  define e where "e = unat n * (unat m - 1) + 1"
  define E where "E = n * (m - 1) + 1"
  have m1: "(word_of_nat (unat m - 1) :: u32) = m - 1"
    using assms(1) by (simp add: of_nat_diff)
  have E: "E = word_of_nat e"
    using m1 by (simp add: E_def e_def)
  have "1 \<le> unat m - 1"
    using assms(1) by arith
  then have "unat n * 1 \<le> unat n * (unat m - 1)"
    by (rule mult_le_mono2)
  then have nle: "unat n \<le> e - 1"
    by (simp add: e_def)
  have e32: "e < 2 ^ 32"
    using assms(2) by (simp add: e_def)
  have uE: "unat E = e"
    by (rule unat_eqI) (use E e32 in simp_all)
  have sub: "unat (E - word_of_nat k) = e - k" if "k \<le> e" for k
  proof (rule unat_eqI)
    show "e - k < 2 ^ 32" using e32 by simp
    show "E - word_of_nat k = word_of_nat (e - k)"
      using that by (simp add: E of_nat_diff)
  qed
  have "map unat (concat (map (\<lambda>i. [E, E - (i + 1), E - i]) (map word_of_nat [1..<unat n])))
        = flat (map (\<lambda>i. (e, e - (i + 1), e - i)) [1..<unat n])"
  proof (rule map_unat_flat_map)
    fix i assume "i \<in> set [1..<unat n]"
    then have i: "i + 1 \<le> e" "i \<le> e"
      using nle by auto
    have "unat (E - (word_of_nat i + 1)) = e - (i + 1)"
      using sub [OF i(1)] by (simp add: add.commute)
    moreover have "unat (E - word_of_nat i) = e - i"
      using sub [OF i(2)] .
    ultimately show "map unat [E, E - (word_of_nat i + 1), E - word_of_nat i]
                     = flat [(e, e - (i + 1), e - i)]"
      by (simp add: uE)
  qed
  moreover have "map unat [E, E - 1, E - n] = flat [(e, e - 1, e - unat n)]"
  proof -
    have "1 \<le> e"
      by (simp add: e_def)
    moreover have "unat n \<le> e"
      using nle by arith
    ultimately show ?thesis
      using sub [of 1] sub [of "unat n"] by (simp add: uE)
  qed
  ultimately show ?thesis
    unfolding E_def [symmetric]
    by (simp only: tri_south_def Let_def e_def [symmetric] map_append flat_append)
qed

lemma indices_nat:
  fixes n m :: u32
  assumes "2 \<le> unat m" and "unat n * (unat m - 1) + 1 < 2 ^ 32"
  shows "map unat (indices_of n m) = flat (triangles (unat n) (unat m))"
proof -
  define N where "N = concat (map (\<lambda>i. [0, i + 1, i]) (map word_of_nat [1..<unat n])) @ [0, 1, n]"
  define B where "B = concat (map (band n) (map word_of_nat [0..<unat m - 2]))"
  define S where "S = concat (map (\<lambda>i. [n * (m - 1) + 1, n * (m - 1) + 1 - (i + 1), n * (m - 1) + 1 - i])
                          (map word_of_nat [1..<unat n]))
                   @ [n * (m - 1) + 1, n * (m - 1) + 1 - 1, n * (m - 1) + 1 - n]"
  have m2: "unat (m - 2) = unat m - 2"
    using assms(1) by (simp add: unat_sub word_le_nat_alt)
  have "map unat B = flat (concat (map (tri_band (unat n)) [0..<unat m - 2]))"
    unfolding B_def
  proof (rule map_unat_flat_concat)
    fix b assume "b \<in> set [0..<unat m - 2]"
    then have "b + 2 \<le> unat m - 1"
      by simp
    then have "(b + 2) * unat n \<le> (unat m - 1) * unat n"
      by (rule mult_le_mono1)
    then have "(b + 2) * unat n + 1 < 2 ^ 32"
      using assms(2) by (simp add: mult.commute)
    then show "map unat (band n (word_of_nat b)) = flat (tri_band (unat n) b)"
      by (rule band_nat)
  qed
  moreover have "map unat N = flat (tri_north (unat n))"
    unfolding N_def by (rule north_nat)
  moreover have "map unat S = flat (tri_south (unat n) (unat m))"
    unfolding S_def using assms by (rule south_nat)
  moreover have "indices_of n m = N @ B @ S"
    by (simp add: indices_of_def Let_def N_def B_def S_def m2)
  ultimately show ?thesis
    by (simp add: triangles_def)
qed

subsection \<open>The constructed sphere\<close>

lemma Sphere_result:
  assumes "Sphere ops r n_lon n_lat = Inr s" and "1 \<le> n_lat"
  shows "fits n_lon n_lat"
    and "s = \<lparr> m_radius = r, m_n_longitudes = n_lon, m_n_latitudes = n_lat,
               m_n_vertexes = word_of_nat (n_vertices n_lon n_lat),
               m_vertexes = concat (map (enc_full ops) (positions ops r n_lon n_lat)),
               m_indices = indices_of n_lon n_lat \<rparr>"
proof -
  show f: "fits n_lon n_lat"
    using assms by (rule Sphere_Inr_fits)
  have "m_indices (set_indices (init_sphere ops r n_lon n_lat)) = indices_of n_lon n_lat"
    by (simp add: set_indices_closed init_sphere_def Let_def)
  then have "(set_indices (init_sphere ops r n_lon n_lat))
               \<lparr>m_vertexes := concat (map (enc_full ops) (positions ops r n_lon n_lat))\<rparr>
             = \<lparr> m_radius = r, m_n_longitudes = n_lon, m_n_latitudes = n_lat,
               m_n_vertexes = word_of_nat (n_vertices n_lon n_lat),
               m_vertexes = concat (map (enc_full ops) (positions ops r n_lon n_lat)),
               m_indices = indices_of n_lon n_lat \<rparr>"
    by (simp add: init_sphere_fits [OF assms(2) f] set_indices_def Let_def)
  with Sphere_fits [OF assms(2) f, of ops r] assms(1)
  show "s = \<lparr> m_radius = r, m_n_longitudes = n_lon, m_n_latitudes = n_lat,
               m_n_vertexes = word_of_nat (n_vertices n_lon n_lat),
               m_vertexes = concat (map (enc_full ops) (positions ops r n_lon n_lat)),
               m_indices = indices_of n_lon n_lat \<rparr>"
    by simp
qed

lemma nth_concat_enc_full:
  assumes "v < length ps" and "c < 6"
  shows "concat (map (enc_full ops) ps) ! (6 * v + c) = enc_full ops (ps ! v) ! c"
  using assms
proof (induction ps arbitrary: v)
  case Nil
  then show ?case by simp
next
  case (Cons p ps)
  show ?case
  proof (cases v)
    case 0
    with Cons.prems show ?thesis by (simp add: nth_append)
  next
    case (Suc v')
    with Cons.prems have "concat (map (enc_full ops) ps) ! (6 * v' + c) = enc_full ops (ps ! v') ! c"
      by (intro Cons.IH) simp_all
    moreover have "6 * v + c - 6 = 6 * v' + c"
      using Suc by simp
    ultimately show ?thesis
      using Suc by (simp add: nth_append)
  qed
qed

lemma vertex_of_blocks:
  assumes "m_vertexes s = concat (map (enc_full ops) ps)" and "v < length ps"
  shows "vertex_position s v = ps ! v" and "vertex_normal s v = f_normalize ops (ps ! v)"
proof -
  obtain x y z where p: "ps ! v = (x, y, z)" by (cases "ps ! v")
  obtain nx ny nz where n: "f_normalize ops (x, y, z) = (nx, ny, nz)"
    by (cases "f_normalize ops (x, y, z)")
  have e: "enc_full ops (ps ! v) = [x, y, z, nx, ny, nz]"
    by (simp add: enc_full_def p n)
  have nth: "m_vertexes s ! (6 * v + c) = [x, y, z, nx, ny, nz] ! c" if "c < 6" for c
    using nth_concat_enc_full [OF assms(2) that, of ops] by (simp add: assms(1) e)
  show "vertex_position s v = ps ! v"
    using nth [of 0] nth [of 1] nth [of 2] by (simp add: vertex_position_def p)
  show "vertex_normal s v = f_normalize ops (ps ! v)"
    using nth [of 3] nth [of 4] nth [of 5] by (simp add: vertex_normal_def p n)
qed

lemma nth_concat_uniform:
  assumes "\<And>xs. xs \<in> set xss \<Longrightarrow> length xs = n" and "i < length xss" and "j < n"
  shows "concat xss ! (i * n + j) = xss ! i ! j"
  using assms
proof (induction xss arbitrary: i)
  case Nil
  then show ?case by simp
next
  case (Cons xs xss)
  have len: "length xs = n" using Cons.prems(1) by simp
  show ?case
  proof (cases i)
    case 0
    with Cons.prems len show ?thesis by (simp add: nth_append)
  next
    case (Suc i')
    with Cons.prems have "concat xss ! (i' * n + j) = xss ! i' ! j"
      by (intro Cons.IH) simp_all
    moreover have "i * n + j - n = i' * n + j"
      using Suc by simp
    ultimately show ?thesis
      using Suc len by (simp add: nth_append)
  qed
qed

lemma positions_nth:
  shows positions_north: "positions ops r n_lon n_lat ! 0 = (f_zero ops, r, f_zero ops)"
    and positions_south: "positions ops r n_lon n_lat ! (unat n_lon * (unat n_lat - 1) + 1)
                          = (f_zero ops, f_neg ops r, f_zero ops)"
    and positions_ring: "1 \<le> k \<Longrightarrow> k < unat n_lat \<Longrightarrow> j < unat n_lon \<Longrightarrow>
           positions ops r n_lon n_lat ! (1 + (k - 1) * unat n_lon + j)
           = ring_vertex ops r n_lon n_lat (word_of_nat k) (word_of_nat j)"
proof -
  let ?rings = "map (\<lambda>k. map (\<lambda>j. ring_vertex ops r n_lon n_lat (word_of_nat k) (word_of_nat j))
                            [0..<unat n_lon]) [1..<unat n_lat]"
  have len: "length (concat ?rings) = unat n_lon * (unat n_lat - 1)"
    by (simp add: length_concat comp_def sum_list_triv)
  show "positions ops r n_lon n_lat ! 0 = (f_zero ops, r, f_zero ops)"
    by (simp add: positions_def)
  show "positions ops r n_lon n_lat ! (unat n_lon * (unat n_lat - 1) + 1)
        = (f_zero ops, f_neg ops r, f_zero ops)"
    using len by (simp add: positions_def nth_append del: length_concat)
  assume k: "1 \<le> k" "k < unat n_lat" and j: "j < unat n_lon"
  have "concat ?rings ! ((k - 1) * unat n_lon + j) = ?rings ! (k - 1) ! j"
    by (rule nth_concat_uniform) (use k j in auto)
  also have "\<dots> = ring_vertex ops r n_lon n_lat (word_of_nat k) (word_of_nat j)"
    using k j by simp
  finally have ring: "concat ?rings ! ((k - 1) * unat n_lon + j)
                      = ring_vertex ops r n_lon n_lat (word_of_nat k) (word_of_nat j)" .
  have "(k - 1) * unat n_lon + j < unat n_lon * (unat n_lat - 1)"
  proof -
    have "(k - 1) * unat n_lon + j < (k - 1) * unat n_lon + unat n_lon"
      using j by simp
    also have "\<dots> = k * unat n_lon"
    proof -
      from k obtain k' where "k = Suc k'" by (cases k) auto
      then show ?thesis by simp
    qed
    also have "\<dots> \<le> (unat n_lat - 1) * unat n_lon"
      using k by (intro mult_le_mono1) simp
    finally show ?thesis by (simp add: mult.commute)
  qed
  then show "positions ops r n_lon n_lat ! (1 + (k - 1) * unat n_lon + j)
             = ring_vertex ops r n_lon n_lat (word_of_nat k) (word_of_nat j)"
    using ring len by (simp add: positions_def nth_append del: length_concat)
qed

subsection \<open>Counts and bounds\<close>

lemma length_concat_const:
  assumes "\<And>x. x \<in> set xs \<Longrightarrow> length (f x) = n"
  shows "length (concat (map f xs)) = length xs * n"
  using assms by (induction xs) simp_all

lemma length_band: "length (band n b) = 6 * (unat n - 1) + 6"
  by (simp add: band_def length_concat_const [where n = 6])

lemma length_indices_of:
  "length (indices_of n m)
   = 3 * (unat n - 1) + 3 + unat (m - 2) * (6 * (unat n - 1) + 6) + (3 * (unat n - 1) + 3)"
  by (simp add: indices_of_def Let_def length_concat_const [where n = 3]
      length_concat_const [where n = "6 * (unat n - 1) + 6"] length_band)

lemma length_indices_of_valid:
  assumes "1 \<le> unat n" and "2 \<le> unat m"
  shows "length (indices_of n m) = 6 * unat n * (unat m - 1)"
proof -
  obtain L where L: "unat n = Suc L"
    using assms(1) by (cases "unat n") auto
  obtain M where M: "unat m = Suc (Suc M)"
    using assms(2) by (cases "unat m") (auto simp: numeral_2_eq_2 Suc_le_eq elim: less_natE)
  have m2: "unat (m - 2) = M"
    using assms(2) M by (simp add: unat_sub word_le_nat_alt)
  show ?thesis
    by (simp add: length_indices_of L M m2 algebra_simps)
qed

lemma fits_no_wrap:
  assumes "fits n m"
  shows "n_vertices n m < 2 ^ 32" and "unat n * (unat m - 1) + 1 < 2 ^ 32"
    and "6 * unat n * (unat m - 1) < 2 ^ 32"
  using assms by (simp_all add: fits_def n_vertices_def)

lemma fold_count: "fold (\<lambda>i c. Suc c) xs c = c + length xs"
  by (induction xs arbitrary: c) simp_all

lemma set_flat: "set (flat ts) = (\<Union>(a, b, c) \<in> set ts. {a, b, c})"
  by (induction ts) (auto simp: flat_def)

lemma triangles_bound:
  assumes "1 \<le> L" and "2 \<le> M" and "(a, b, c) \<in> set (triangles L M)"
  shows "a < 2 + L * (M - 1) \<and> b < 2 + L * (M - 1) \<and> c < 2 + L * (M - 1)"
proof -
  define P where "P = L * (M - 1)"
  have P: "L * (M - Suc 0) = P"
    by (simp add: P_def)
  have "1 \<le> M - 1"
    using assms(2) by arith
  then have "L * 1 \<le> L * (M - 1)"
    by (rule mult_le_mono2)
  then have LM: "L \<le> P"
    by (simp add: P_def)
  have band: "q * L + 2 * L \<le> P" if "q < M - 2" for q
  proof -
    from that have "q + 2 \<le> M - 1" by arith
    then have "(q + 2) * L \<le> (M - 1) * L" by (rule mult_le_mono1)
    then show ?thesis by (simp add: algebra_simps P_def)
  qed
  from assms(3) consider
    (north) "(a, b, c) \<in> set (tri_north L)"
    | (body) q where "q < M - 2" "(a, b, c) \<in> set (tri_band L q)"
    | (south) "(a, b, c) \<in> set (tri_south L M)"
    by (auto simp: triangles_def)
  then have "a < 2 + P \<and> b < 2 + P \<and> c < 2 + P"
  proof cases
    case north
    then show ?thesis
      using LM by (auto simp: tri_north_def)
  next
    case body
    then show ?thesis
      using band [OF body(1)] by (auto simp: tri_band_def tri_quad_def)
  next
    case south
    then show ?thesis
      by (auto simp: tri_south_def Let_def P)
  qed
  then show ?thesis
    by (simp add: P_def)
qed

lemma indices_of_bound:
  assumes "1 \<le> unat n" and "2 \<le> unat m" and "v \<in> set (indices_of n m)"
  shows "unat v < 2 + unat n * (unat m - 1)"
proof (cases "unat n * (unat m - 1) + 1 < 2 ^ 32")
  case True
  have "unat v \<in> set (map unat (indices_of n m))"
    using assms(3) by simp
  then have "unat v \<in> set (flat (triangles (unat n) (unat m)))"
    by (simp only: indices_nat [OF assms(2) True])
  then obtain a b c where "(a, b, c) \<in> set (triangles (unat n) (unat m))" "unat v \<in> {a, b, c}"
    by (auto simp: set_flat)
  with triangles_bound [OF assms(1,2)] show ?thesis
    by blast
next
  case False
  moreover have "unat v < 2 ^ 32"
    by (rule unat_lt_u32)
  ultimately show ?thesis
    by simp
qed

subsection \<open>Exact arithmetic\<close>

lemma exact_sel [simp]:
  "f_zero exact = 0" "f_neg exact x = - x" "f_mul exact x y = x * y"
  "f_cos exact = cos" "f_sin exact = sin" "f_of_size exact k = real (unat k)"
  "f_lon_step exact n = 2 * pi / real (unat n)" "f_lat_step exact n = pi / real (unat n)"
  by (simp_all add: exact_def)

lemma normalize_exact:
  "f_normalize exact (x, y, z)
   = (x * (1 / sqrt (x * x + y * y + z * z)), y * (1 / sqrt (x * x + y * y + z * z)),
      z * (1 / sqrt (x * x + y * y + z * z)))"
  by (simp add: exact_def Let_def)

lemma normalize_exact_radius:
  assumes "x * x + y * y + z * z = r * r" and "0 < r"
  shows "f_normalize exact (x, y, z) = (x / r, y / r, z / r)"
    and "norm3 (f_normalize exact (x, y, z)) = 1"
proof -
  have s: "sqrt (x * x + y * y + z * z) = r"
    using assms by (simp add: real_sqrt_mult)
  show n: "f_normalize exact (x, y, z) = (x / r, y / r, z / r)"
    by (simp add: normalize_exact s)
  have "(x / r) * (x / r) + (y / r) * (y / r) + (z / r) * (z / r)
        = (x * x + y * y + z * z) / (r * r)"
    by (simp add: add_divide_distrib)
  also have "\<dots> = 1"
    using assms by simp
  finally show "norm3 (f_normalize exact (x, y, z)) = 1"
    by (simp add: n norm3_def)
qed

lemma ring_vertex_exact:
  "ring_vertex exact r n_lon n_lat k j
   = (r * cos (real (unat j) * (2 * pi / real (unat n_lon)))
        * sin (real (unat k) * (pi / real (unat n_lat))),
      r * cos (real (unat k) * (pi / real (unat n_lat))),
      r * sin (real (unat j) * (2 * pi / real (unat n_lon)))
        * sin (real (unat k) * (pi / real (unat n_lat))))"
  by (simp add: ring_vertex_def Let_def)

lemma unit_pair_norm:
  fixes r a b c d :: real
  assumes "a * a + b * b = 1" and "c * c + d * d = 1"
  shows "(r * a * d) * (r * a * d) + (r * c) * (r * c) + (r * b * d) * (r * b * d) = r * r"
proof -
  have "(r * a * d) * (r * a * d) + (r * c) * (r * c) + (r * b * d) * (r * b * d)
        = r * r * (d * d * (a * a + b * b) + c * c)"
    by (simp add: algebra_simps)
  also have "\<dots> = r * r * (c * c + d * d)"
    by (simp add: assms(1))
  also have "\<dots> = r * r"
    by (simp add: assms(2))
  finally show ?thesis .
qed

lemma pt_norm:
  fixes r t p :: real
  shows "(r * cos t * sin p) * (r * cos t * sin p) + (r * cos p) * (r * cos p)
         + (r * sin t * sin p) * (r * sin t * sin p) = r * r"
proof (rule unit_pair_norm)
  show "cos t * cos t + sin t * sin t = 1"
    using sin_cos_squared_add2 [of t] by (simp add: power2_eq_square)
  show "cos p * cos p + sin p * sin p = 1"
    using sin_cos_squared_add2 [of p] by (simp add: power2_eq_square)
qed

lemma positions_exact_norm:
  assumes "(x, y, z) \<in> set (positions exact r n_lon n_lat)"
  shows "x * x + y * y + z * z = r * r"
proof -
  from assms consider "(x, y, z) = (0, r, 0)" | "(x, y, z) = (0, - r, 0)"
    | k j where "(x, y, z) = ring_vertex exact r n_lon n_lat k j"
    by (auto simp: positions_def)
  then show ?thesis
  proof cases
    case 3
    then show ?thesis
      using pt_norm [of r] by (simp add: ring_vertex_exact)
  qed simp_all
qed

subsection \<open>Single precision\<close>

text \<open>
  The rounding functions compute what their descriptions say: \<open>ilog2\<close> is the binary exponent,
  \<open>isqrt\<close> the integer square root, and a rounded magnitude or square root is within half a
  unit in the last place of the exact one, the unit being that of the exponent of the exact
  value.
\<close>

lemma lg_up_nonneg: "0 \<le> lg_up x"
  by (induction x rule: lg_up.induct) (subst lg_up.simps, simp)

lemma lg_dn_nonneg: "0 \<le> lg_dn x"
  by (induction x rule: lg_dn.induct) (subst lg_dn.simps, simp)

lemma lg_up_bounds:
  "1 \<le> x \<Longrightarrow> 2 ^ nat (lg_up x) \<le> x \<and> x < 2 * 2 ^ nat (lg_up x)"
proof (induction x rule: lg_up.induct)
  case (1 x)
  show ?case
  proof (cases "x < 2")
    case True
    with "1.prems" show ?thesis
      by (subst (1 2) lg_up.simps) simp
  next
    case False
    then have "1 \<le> x / 2"
      by simp
    with "1.IH" [OF False] have "2 ^ nat (lg_up (x / 2)) \<le> x / 2 \<and> x / 2 < 2 * 2 ^ nat (lg_up (x / 2))"
      by simp
    moreover have "nat (1 + lg_up (x / 2)) = Suc (nat (lg_up (x / 2)))"
      using lg_up_nonneg [of "x / 2"] by simp
    ultimately show ?thesis
      using False by (subst (1 2) lg_up.simps) simp
  qed
qed

lemma lg_dn_bounds:
  "0 < x \<Longrightarrow> x < 1 \<Longrightarrow> 1 \<le> x * 2 ^ nat (lg_dn x) \<and> x * 2 ^ nat (lg_dn x) < 2"
proof (induction x rule: lg_dn.induct)
  case (1 x)
  have c: "\<not> (x \<le> 0 \<or> 1 \<le> x)"
    using "1.prems" by simp
  have s: "lg_dn x = 1 + lg_dn (2 * x)"
    using c by (subst lg_dn.simps) simp
  have n: "nat (1 + lg_dn (2 * x)) = Suc (nat (lg_dn (2 * x)))"
    using lg_dn_nonneg [of "2 * x"] by simp
  show ?case
  proof (cases "2 * x < 1")
    case True
    define m where "m = nat (lg_dn (2 * x))"
    from "1.IH" [OF c] True "1.prems"
    have "1 \<le> 2 * x * 2 ^ m \<and> 2 * x * 2 ^ m < 2"
      by (simp add: m_def)
    moreover have "x * 2 ^ nat (lg_dn x) = 2 * x * 2 ^ m"
      by (simp add: s n m_def)
    ultimately show ?thesis
      by (simp only:)
  next
    case False
    then have "lg_dn (2 * x) = 0"
      by (subst lg_dn.simps) simp
    with False "1.prems" show ?thesis
      by (simp add: s)
  qed
qed

lemma ilog2_bounds:
  assumes "0 < x"
  shows "pow2 (ilog2 x) \<le> x \<and> x < pow2 (ilog2 x + 1)"
proof (cases "1 \<le> x")
  case True
  moreover have "nat (lg_up x + 1) = Suc (nat (lg_up x))"
    using lg_up_nonneg [of x] by simp
  ultimately show ?thesis
    using lg_up_bounds [of x] lg_up_nonneg [of x] by (simp add: ilog2_def pow2_def)
next
  case False
  then have x: "x < 1"
    by simp
  define n where "n = nat (lg_dn x)"
  have b: "1 \<le> x * 2 ^ n" "x * 2 ^ n < 2"
    using lg_dn_bounds [OF assms x] by (simp_all add: n_def)
  have n0: "0 < n"
  proof (rule ccontr)
    assume "\<not> 0 < n"
    with b(1) x show False by simp
  qed
  have l: "lg_dn x = int n"
    using lg_dn_nonneg [of x] by (simp add: n_def)
  have lo: "1 / 2 ^ n \<le> x"
    using b(1) by (simp add: field_simps)
  obtain m where m: "n = Suc m"
    using n0 by (cases n) auto
  have hi: "x < 1 / 2 ^ m"
    using b(2) by (simp add: m field_simps)
  show ?thesis
  proof (cases m)
    case 0
    with lo hi m show ?thesis
      using False by (simp add: ilog2_def pow2_def l)
  next
    case (Suc k)
    with lo hi m show ?thesis
      using False by (simp add: ilog2_def pow2_def l nat_add_distrib)
  qed
qed

lemma isqrt_bounds: "isqrt n * isqrt n \<le> n \<and> n < (isqrt n + 1) * (isqrt n + 1)"
proof (induction n rule: isqrt.induct)
  case (1 n)
  show ?case
  proof (cases "n < 2")
    case True
    then have "isqrt n = n"
      by (subst isqrt.simps) simp
    with True show ?thesis
      by (cases n) auto
  next
    case False
    define r where "r = isqrt (n div 4)"
    have ih: "r * r \<le> n div 4" "n div 4 < (r + 1) * (r + 1)"
      using "1.IH" [OF False] by (simp_all add: r_def)
    have s: "isqrt n = (if (2 * r + 1) * (2 * r + 1) \<le> n then 2 * r + 1 else 2 * r)"
      using False by (subst isqrt.simps) (simp add: r_def Let_def)
    have lo: "(2 * r) * (2 * r) \<le> n"
    proof -
      have "4 * (r * r) \<le> 4 * (n div 4)"
        using ih(1) by simp
      also have "\<dots> \<le> n"
        by simp
      finally show ?thesis
        by (simp add: ac_simps)
    qed
    have hi: "n < (2 * r + 2) * (2 * r + 2)"
    proof -
      have "n div 4 + 1 \<le> (r + 1) * (r + 1)"
        using ih(2) by simp
      then have "4 * (n div 4 + 1) \<le> 4 * ((r + 1) * (r + 1))"
        by (simp only: mult_le_mono2)
      moreover have "n < 4 * (n div 4 + 1)"
        by presburger
      ultimately have "n < 4 * ((r + 1) * (r + 1))"
        by simp
      then show ?thesis
        by (simp add: algebra_simps)
    qed
    show ?thesis
      using lo hi by (simp add: s)
  qed
qed

lemma round_even_nearest: "\<bar>real_of_int (round_even x) - x\<bar> \<le> 1 / 2"
  unfolding round_even_def Let_def by (auto; linarith)

lemma pow2_pos: "0 < pow2 e"
  by (simp add: pow2_def)

lemma fp_round_nearest:
  assumes "fp_round fmt s x = Finite t y"
  shows "t = s \<and> \<bar>y - x\<bar> \<le> pow2 (max (ilog2 x) (emin fmt) - (int (precision fmt) - 1)) / 2"
proof (cases "x = 0")
  case True
  with assms show ?thesis
    by (simp add: fp_round_def less_imp_le [OF pow2_pos])
next
  case False
  define u where "u = pow2 (max (ilog2 x) (emin fmt) - (int (precision fmt) - 1))"
  have u: "0 < u"
    unfolding u_def by (rule pow2_pos)
  from assms False have y: "y = of_int (round_even (x / u)) * u" and t: "t = s"
    by (simp_all add: fp_round_def Let_def u_def split: if_splits)
  have "y - x = (of_int (round_even (x / u)) - x / u) * u"
    using u by (simp add: y field_simps)
  then have "\<bar>y - x\<bar> = \<bar>of_int (round_even (x / u)) - x / u\<bar> * u"
    using u by (simp add: abs_mult)
  also have "\<dots> \<le> 1 / 2 * u"
    using round_even_nearest [of "x / u"] u by (intro mult_right_mono) simp_all
  finally show ?thesis
    using t by (simp add: u_def)
qed

lemma fp_round_sqrt_nearest:
  assumes "0 \<le> x"
  obtains y where "fp_round_sqrt fmt x = Finite False y"
    and "\<bar>y - sqrt x\<bar> \<le> pow2 (max (ilog2 x div 2) (emin fmt) - (int (precision fmt) - 1)) / 2"
proof -
  define u where "u = pow2 (max (ilog2 x div 2) (emin fmt) - (int (precision fmt) - 1))"
  define v where "v = x / (u * u)"
  define n where "n = int (isqrt (nat \<lfloor>v\<rfloor>))"
  define h where "h = (real_of_int n + 1 / 2) * (real_of_int n + 1 / 2)"
  define m where "m = (if v < h then n else if h < v then n + 1
                        else if even n then n else n + 1)"
  have u: "0 < u"
    unfolding u_def by (rule pow2_pos)
  have v: "0 \<le> v"
    using assms u by (simp add: v_def)
  have r: "fp_round_sqrt fmt x = Finite False (of_int m * u)"
    by (simp only: fp_round_sqrt_def Let_def u_def v_def n_def h_def m_def)
  have n0: "0 \<le> n"
    by (simp add: n_def)
  define k where "k = isqrt (nat \<lfloor>v\<rfloor>)"
  have nk: "real_of_int n = real k"
    by (simp add: n_def k_def)
  have "k * k \<le> nat \<lfloor>v\<rfloor>" "nat \<lfloor>v\<rfloor> + 1 \<le> (k + 1) * (k + 1)"
    using isqrt_bounds [of "nat \<lfloor>v\<rfloor>"] by (simp_all add: k_def)
  then have "real (k * k) \<le> real (nat \<lfloor>v\<rfloor>)"
    and "real (nat \<lfloor>v\<rfloor> + 1) \<le> real ((k + 1) * (k + 1))"
    by (simp_all only: of_nat_le_iff)
  then have "real k * real k \<le> real (nat \<lfloor>v\<rfloor>)"
    and "real (nat \<lfloor>v\<rfloor>) + 1 \<le> (real k + 1) * (real k + 1)"
    by (simp_all only: of_nat_mult of_nat_add of_nat_1)
  moreover have "real (nat \<lfloor>v\<rfloor>) \<le> v" "v < real (nat \<lfloor>v\<rfloor>) + 1"
    using v by linarith+
  ultimately have lo: "real k * real k \<le> v" and hi: "v < (real k + 1) * (real k + 1)"
    by linarith+
  have lo': "real_of_int n \<le> sqrt v"
    unfolding nk using lo by (intro real_le_rsqrt) (simp add: power2_eq_square)
  have hi': "sqrt v < real_of_int n + 1"
    unfolding nk using hi by (intro real_less_lsqrt) (simp_all add: power2_eq_square)
  have near: "\<bar>real_of_int m - sqrt v\<bar> \<le> 1 / 2"
  proof -
    consider "v < h" | "h < v" | "v = h"
      by linarith
    then show ?thesis
    proof cases
      case 1
      then have "sqrt v < real_of_int n + 1 / 2"
        using n0 by (intro real_less_lsqrt) (simp_all add: power2_eq_square h_def)
      moreover have "m = n"
        using 1 by (simp add: m_def)
      ultimately show ?thesis
        using lo' by simp
    next
      case 2
      then have "real_of_int n + 1 / 2 \<le> sqrt v"
        by (intro real_le_rsqrt) (simp add: power2_eq_square h_def)
      moreover have "m = n + 1"
        using 2 by (simp add: m_def)
      ultimately show ?thesis
        using hi' by simp
    next
      case 3
      have "sqrt v = real_of_int n + 1 / 2"
        unfolding 3 h_def using n0 by simp
      moreover have "m = n \<or> m = n + 1"
        by (simp add: m_def)
      ultimately show ?thesis
        by auto
    qed
  qed
  have sx: "sqrt x = sqrt v * u"
  proof -
    have "x = v * (u * u)"
      using u by (simp add: v_def)
    then have "sqrt x = sqrt v * sqrt (u * u)"
      by (simp only: real_sqrt_mult)
    then show ?thesis
      using u by simp
  qed
  have "of_int m * u - sqrt x = (real_of_int m - sqrt v) * u"
    by (simp only: sx left_diff_distrib)
  then have "\<bar>of_int m * u - sqrt x\<bar> = \<bar>real_of_int m - sqrt v\<bar> * u"
    using u by (simp only: abs_mult abs_of_pos)
  also have "\<dots> \<le> 1 / 2 * u"
    using near u by (intro mult_right_mono) simp_all
  finally have "\<bar>of_int m * u - sqrt x\<bar> \<le> u / 2"
    by simp
  with r that show ?thesis
    by (simp only: u_def)
qed

lemma pow2_powr: "pow2 e = 2 powr real_of_int e"
proof (cases "0 \<le> e")
  case True
  then have "real_of_int e = real (nat e)"
    by simp
  then have "2 powr real_of_int e = 2 ^ nat e"
    by (simp only: powr_realpow zero_less_numeral)
  with True show ?thesis
    by (simp add: pow2_def)
next
  case False
  then have "real_of_int e = - real (nat (- e))"
    by simp
  then have "2 powr real_of_int e = 1 / 2 ^ nat (- e)"
    by (simp only: powr_minus_divide powr_realpow zero_less_numeral)
  with False show ?thesis
    by (simp add: pow2_def)
qed

lemma sqrt_exponent:
  assumes "0 < x"
  shows "pow2 (ilog2 x div 2) \<le> sqrt x \<and> sqrt x < pow2 (ilog2 x div 2 + 1)"
proof -
  define l where "l = ilog2 x"
  define e where "e = l div 2"
  have b: "pow2 l \<le> x" "x < pow2 (l + 1)"
    using ilog2_bounds [OF assms] by (simp_all add: l_def)
  have sq: "pow2 a * pow2 a = pow2 (2 * a)" for a
    by (simp add: pow2_powr powr_add [symmetric])
  have mono: "pow2 a \<le> pow2 c" if "a \<le> c" for a c
    using that by (simp add: pow2_powr)
  have "2 * e \<le> l" "l + 1 \<le> 2 * (e + 1)"
    by (simp_all add: e_def)
  then have "pow2 (2 * e) \<le> pow2 l" "pow2 (l + 1) \<le> pow2 (2 * (e + 1))"
    by (simp_all only: mono)
  with b have "pow2 e * pow2 e \<le> x" "x < pow2 (e + 1) * pow2 (e + 1)"
    by (simp_all only: sq)
  moreover have "0 \<le> pow2 e" "0 \<le> pow2 (e + 1)"
    by (simp_all add: pow2_powr)
  ultimately have "pow2 e \<le> sqrt x" "sqrt x < pow2 (e + 1)"
    by (simp_all add: real_le_rsqrt real_less_lsqrt power2_eq_square)
  then show ?thesis
    by (simp add: e_def l_def)
qed

text \<open>Evaluation at given floats.\<close>

lemmas fp_eval =
  fp_round_def fp_round_sqrt_def fp_convert_def fp_neg_def fmt32_def fmt64_def ilog2_def
  lg_up.simps lg_dn.simps isqrt.simps pow2_def round_even_def with_sign_def glm_normalize_def
  Let_def

lemma binary32_sel [simp]:
  "f_zero binary32 = Finite False 0"
  "f_neg binary32 = fp_neg"
  "f_normalize binary32 = glm_normalize"
  "f_of_size binary32 n = fp_round fmt32 False (real (unat n))"
  by (simp_all add: binary32_def)

lemma normalize_17:
  "glm_normalize (Finite False 0, Finite False (7130317 / 4194304), Finite False 0)
   = (Finite False 0, Finite False (16777215 / 16777216), Finite False 0)"
  by (simp add: fp_eval)

lemma normalize_17_neg:
  "glm_normalize (Finite False 0, Finite True (7130317 / 4194304), Finite False 0)
   = (Finite False 0, Finite True (16777215 / 16777216), Finite False 0)"
  by (simp add: fp_eval)


lemma normalize_1:
  "glm_normalize (Finite False 0, Finite False 1, Finite False 0)
   = (Finite False 0, Finite False 1, Finite False 0)"
  "glm_normalize (Finite False 0, Finite True 1, Finite False 0)
   = (Finite False 0, Finite True 1, Finite False 0)"
  by (simp_all add: fp_eval)


subsection \<open>Vertices and triangles of the constructed sphere\<close>

lemma constructed_vertices:
  assumes "Sphere ops r n_lon n_lat = Inr s" and "1 \<le> n_lat"
  shows "unat (m_n_vertexes s) = 2 + unat n_lon * (unat n_lat - 1)"
    and "\<And>v. v < 2 + unat n_lon * (unat n_lat - 1) \<Longrightarrow>
           vertex_position s v = positions ops r n_lon n_lat ! v"
    and "\<And>v. v < 2 + unat n_lon * (unat n_lat - 1) \<Longrightarrow>
           vertex_normal s v = f_normalize ops (positions ops r n_lon n_lat ! v)"
proof -
  note res = Sphere_result [OF assms]
  note small = fits_no_wrap [OF res(1)]
  show "unat (m_n_vertexes s) = 2 + unat n_lon * (unat n_lat - 1)"
    using unat_of_nat_u32 [OF small(1)] by (subst res(2)) (simp add: n_vertices_def)
  have mv: "m_vertexes s = concat (map (enc_full ops) (positions ops r n_lon n_lat))"
    by (subst res(2)) simp
  fix v assume "v < 2 + unat n_lon * (unat n_lat - 1)"
  then have v: "v < length (positions ops r n_lon n_lat)"
    by (simp add: length_positions n_vertices_def)
  show "vertex_position s v = positions ops r n_lon n_lat ! v"
    using mv v by (rule vertex_of_blocks)
  show "vertex_normal s v = f_normalize ops (positions ops r n_lon n_lat ! v)"
    using mv v by (rule vertex_of_blocks)
qed

lemma constructed_triangles:
  assumes "Sphere ops r n_lon n_lat = Inr s" and "2 \<le> n_lat"
  shows "triples (map unat (m_indices s)) = triangles (unat n_lon) (unat n_lat)"
proof -
  have lat1: "1 \<le> n_lat" and M: "2 \<le> unat n_lat"
    using assms(2) by (simp_all add: word_le_nat_alt)
  note res = Sphere_result [OF assms(1) lat1]
  note small = fits_no_wrap [OF res(1)]
  have "m_indices s = indices_of n_lon n_lat"
    by (subst res(2)) simp
  then show ?thesis
    by (simp only: indices_nat [OF M small(2)] triples_flat)
qed

lemma constructed_poles:
  assumes "Sphere ops r n_lon n_lat = Inr s" and "1 \<le> n_lat"
  shows "vertex_position s 0 = (f_zero ops, r, f_zero ops)"
    and "vertex_normal s 0 = f_normalize ops (f_zero ops, r, f_zero ops)"
    and "vertex_position s (unat n_lon * (unat n_lat - 1) + 1)
           = (f_zero ops, f_neg ops r, f_zero ops)"
    and "vertex_normal s (unat n_lon * (unat n_lat - 1) + 1)
           = f_normalize ops (f_zero ops, f_neg ops r, f_zero ops)"
proof -
  note cv = constructed_vertices [OF assms]
  have "(0 :: nat) < 2 + unat n_lon * (unat n_lat - 1)"
    and "unat n_lon * (unat n_lat - 1) + 1 < 2 + unat n_lon * (unat n_lat - 1)"
    by simp_all
  then show "vertex_position s 0 = (f_zero ops, r, f_zero ops)"
    and "vertex_normal s 0 = f_normalize ops (f_zero ops, r, f_zero ops)"
    and "vertex_position s (unat n_lon * (unat n_lat - 1) + 1)
           = (f_zero ops, f_neg ops r, f_zero ops)"
    and "vertex_normal s (unat n_lon * (unat n_lat - 1) + 1)
           = f_normalize ops (f_zero ops, f_neg ops r, f_zero ops)"
    by (simp_all only: cv(2) cv(3) positions_north positions_south)
qed

lemma built_3_2:
  obtains s where "Sphere binary32 r 3 2 = Inr s"
proof -
  have "fits 3 2"
    by (simp add: fits_def n_vertices_def)
  then show ?thesis
    using Sphere_fits [of 2 3 binary32 r] that by simp
qed

lemma length_tri_north: "1 \<le> L \<Longrightarrow> length (tri_north L) = L"
  by (simp add: tri_north_def)

lemma length_tri_band: "1 \<le> L \<Longrightarrow> length (tri_band L b) = 2 * L"
  by (simp add: tri_band_def tri_quad_def length_concat_const [where n = 2])

lemma tri_band_nth:
  assumes "1 \<le> i" and "i < L"
  shows "tri_band L b ! (2 * (i - 1)) = (i + b * L, i + b * L + 1, i + L + b * L)"
    and "tri_band L b ! (2 * (i - 1) + 1) = (i + b * L + 1, i + L + b * L + 1, i + L + b * L)"
    and "tri_band L b ! (2 * (L - 1)) = (1 + b * L, 1 + b * L + L, L + b * L)"
    and "tri_band L b ! (2 * (L - 1) + 1) = (L + b * L, 1 + b * L + L, L + b * L + L)"
proof -
  let ?qs = "map (tri_quad L b) [1..<L]"
  have len: "length (concat ?qs) = (L - 1) * 2"
    by (simp add: tri_quad_def length_concat_const [where n = 2])
  have q: "concat ?qs ! ((i - 1) * 2 + t) = ?qs ! (i - 1) ! t" if "t < 2" for t
    by (rule nth_concat_uniform) (use assms that in \<open>auto simp: tri_quad_def\<close>)
  have qi: "?qs ! (i - 1) = tri_quad L b i"
    using assms by simp
  have lt: "(i - 1) * 2 + t < (L - 1) * 2" if "t < 2" for t
    using assms that by arith
  show "tri_band L b ! (2 * (i - 1)) = (i + b * L, i + b * L + 1, i + L + b * L)"
    using q [of 0] lt [of 0] len assms
    by (simp add: tri_band_def nth_append qi tri_quad_def mult.commute)
  show "tri_band L b ! (2 * (i - 1) + 1) = (i + b * L + 1, i + L + b * L + 1, i + L + b * L)"
    using q [of 1] lt [of 1] len assms
    by (simp add: tri_band_def nth_append qi tri_quad_def mult.commute)
  show "tri_band L b ! (2 * (L - 1)) = (1 + b * L, 1 + b * L + L, L + b * L)"
    using len by (simp add: tri_band_def nth_append mult.commute)
  show "tri_band L b ! (2 * (L - 1) + 1) = (L + b * L, 1 + b * L + L, L + b * L + L)"
    using len by (simp add: tri_band_def nth_append mult.commute)
qed

lemma triangles_band_nth:
  assumes "1 \<le> L" and "b < M - 2" and "t < 2 * L"
  shows "triangles L M ! (L + b * (2 * L) + t) = tri_band L b ! t"
proof -
  let ?bs = "map (tri_band L) [0..<M - 2]"
  have "concat ?bs ! (b * (2 * L) + t) = ?bs ! b ! t"
    by (rule nth_concat_uniform) (use assms in \<open>auto simp: length_tri_band\<close>)
  moreover have "length (concat ?bs) = (M - 2) * (2 * L)"
    using assms(1) by (simp add: length_concat_const [where n = "2 * L"] length_tri_band)
  moreover have "b * (2 * L) + t < (M - 2) * (2 * L)"
  proof -
    have "b * (2 * L) + t < b * (2 * L) + 2 * L"
      using assms(3) by simp
    also have "\<dots> = (b + 1) * (2 * L)"
      by simp
    also have "\<dots> \<le> (M - 2) * (2 * L)"
      using assms(2) by (intro mult_le_mono1) simp
    finally show ?thesis .
  qed
  ultimately show ?thesis
    using assms(1,2)
    by (simp add: triangles_def nth_append length_tri_north)
qed

lemma upt_3: "[Suc 0..<3] = [Suc 0, 2]" "[0..<3] = [0, Suc 0, 2]"
  by (simp_all add: upt_rec)

lemma triangles_3_3:
  "triangles 3 3 = [(0, 2, 1), (0, 3, 2), (0, 1, 3),
                    (1, 2, 4), (2, 5, 4), (2, 3, 5), (3, 6, 5), (1, 4, 3), (3, 4, 6),
                    (7, 5, 6), (7, 4, 5), (7, 6, 4)]"
  by (simp add: triangles_def tri_north_def tri_band_def tri_quad_def tri_south_def Let_def upt_3)

lemma set_indices_init:
  "m_indices (set_indices (init_sphere ops r n m)) = indices_of n m"
  by (simp add: set_indices_closed init_sphere_def Let_def)

lemma triples_3_3:
  "triples (map unat (m_indices (set_indices (init_sphere ops r 3 3)))) = triangles 3 3"
proof -
  have "map unat (indices_of 3 3) = flat (triangles (unat (3 :: u32)) (unat (3 :: u32)))"
    by (rule indices_nat) simp_all
  then show ?thesis
    by (simp add: set_indices_init)
qed

subsection \<open>Counting references\<close>

lemma refs_Nil [simp]: "refs v [] = 0"
  by (simp add: refs_def)

lemma refs_Cons [simp]:
  "refs v ((a, b, c) # T) = (if v = a \<or> v = b \<or> v = c then 1 else 0) + refs v T"
  by (simp add: refs_def)

lemma refs_append [simp]: "refs v (xs @ ys) = refs v xs + refs v ys"
  by (simp add: refs_def)

lemma refs_concat_map: "refs v (concat (map f xs)) = sum_list (map (\<lambda>x. refs v (f x)) xs)"
  by (induction xs) simp_all

lemma refs_map: "refs v (map f xs) = sum_list (map (\<lambda>x. refs v [f x]) xs)"
  by (induction xs) (simp_all add: refs_def)

lemma sum_list_delta:
  "sum_list (map (\<lambda>i. if i = c then n else 0) [a..<b]) = (if a \<le> c \<and> c < b then n else (0 :: nat))"
proof (induction b)
  case 0
  then show ?case by simp
next
  case (Suc b)
  then show ?case by auto
qed

lemma sum_list_cong_upt:
  assumes "\<And>i. a \<le> i \<Longrightarrow> i < b \<Longrightarrow> f i = g i"
  shows "sum_list (map f [a..<b]) = sum_list (map g [a..<b])"
  by (rule arg_cong [where f = sum_list]) (simp add: assms)

lemma sum_list_two_deltas:
  assumes "\<And>i. a \<le> i \<Longrightarrow> i < b \<Longrightarrow>
             f i = (if i = c then m else 0) + (if i = d then n else (0 :: nat))"
  shows "sum_list (map f [a..<b])
         = (if a \<le> c \<and> c < b then m else 0) + (if a \<le> d \<and> d < b then n else 0)"
proof -
  have "sum_list (map f [a..<b])
        = sum_list (map (\<lambda>i. (if i = c then m else 0) + (if i = d then n else 0)) [a..<b])"
    by (rule sum_list_cong_upt) (rule assms)
  also have "\<dots> = sum_list (map (\<lambda>i. if i = c then m else 0) [a..<b])
                  + sum_list (map (\<lambda>i. if i = d then n else 0) [a..<b])"
    by (rule sum_list_addf)
  finally show ?thesis
    by (simp only: sum_list_delta)
qed

lemma north_refs:
  assumes "3 \<le> L" and "1 \<le> v"
  shows "refs v (tri_north L) = (if v \<le> L then 2 else 0)"
proof -
  have "sum_list (map (\<lambda>i. refs v [(0, i + 1, i)]) [1..<L])
        = (if 1 \<le> v - 1 \<and> v - 1 < L then 1 else 0) + (if 1 \<le> v \<and> v < L then 1 else 0)"
    by (rule sum_list_two_deltas) (use assms in auto)
  then show ?thesis
    using assms by (auto simp: tri_north_def refs_map)
qed

lemma south_refs:
  assumes "3 \<le> L" and "2 \<le> M" and "v < L * (M - 1) + 1"
  shows "refs v (tri_south L M) = (if L * (M - 1) + 1 - L \<le> v then 2 else 0)"
proof -
  define e where "e = L * (M - 1) + 1"
  have "1 \<le> M - 1"
    using assms(2) by arith
  then have "L * 1 \<le> L * (M - 1)"
    by (rule mult_le_mono2)
  then have "L \<le> L * (M - 1)"
    by (simp only: mult_1_right)
  then have Le: "L < e"
    unfolding e_def by linarith
  have ve: "v < e"
    using assms(3) by (simp add: e_def)
  have "sum_list (map (\<lambda>i. refs v [(e, e - (i + 1), e - i)]) [1..<L])
        = (if 1 \<le> e - v - 1 \<and> e - v - 1 < L then 1 else 0) + (if 1 \<le> e - v \<and> e - v < L then 1 else 0)"
    by (rule sum_list_two_deltas) (use Le ve in auto)
  then have "refs v (map (\<lambda>i. (e, e - (i + 1), e - i)) [1..<L] @ [(e, e - 1, e - L)])
             = (if e - L \<le> v then 2 else 0)"
    using Le ve assms(1) by (auto simp: refs_map)
  then show ?thesis
    by (simp add: tri_south_def Let_def e_def)
qed

lemma tri_band_at: "tri_band L b = band_at L (b * L)"
proof -
  have "tri_quad L b = (\<lambda>i. [(i + b * L, i + b * L + 1, i + L + b * L),
                              (i + b * L + 1, i + L + b * L + 1, i + L + b * L)])"
    by (rule ext) (simp add: tri_quad_def)
  then show ?thesis
    by (simp add: tri_band_def band_at_def)
qed

lemma band_at_upper:
  assumes "3 \<le> L" and "j < L"
  shows "refs (1 + o' + j) (band_at L o') = (if j = 0 then 2 else if j = L - 1 then 4 else 3)"
proof -
  have "sum_list (map (\<lambda>i. refs (1 + o' + j)
            [(i + o', i + o' + 1, i + L + o'), (i + o' + 1, i + L + o' + 1, i + L + o')]) [1..<L])
        = (if 1 \<le> j + 1 \<and> j + 1 < L then 1 else 0) + (if 1 \<le> j \<and> j < L then 2 else 0)"
    by (rule sum_list_two_deltas) (use assms in auto)
  then show ?thesis
    using assms by (auto simp: band_at_def refs_concat_map)
qed

lemma band_at_lower:
  assumes "3 \<le> L" and "j < L"
  shows "refs (1 + o' + L + j) (band_at L o') = (if j = 0 then 4 else if j = L - 1 then 2 else 3)"
proof -
  have "sum_list (map (\<lambda>i. refs (1 + o' + L + j)
            [(i + o', i + o' + 1, i + L + o'), (i + o' + 1, i + L + o' + 1, i + L + o')]) [1..<L])
        = (if 1 \<le> j + 1 \<and> j + 1 < L then 2 else 0) + (if 1 \<le> j \<and> j < L then 1 else 0)"
    by (rule sum_list_two_deltas) (use assms in auto)
  then show ?thesis
    using assms by (auto simp: band_at_def refs_concat_map)
qed

lemma band_at_outside:
  assumes "v \<le> o' \<or> o' + 2 * L < v" and "1 \<le> L"
  shows "refs v (band_at L o') = 0"
proof -
  have "sum_list (map (\<lambda>i. refs v
            [(i + o', i + o' + 1, i + L + o'), (i + o' + 1, i + L + o' + 1, i + L + o')]) [1..<L])
        = sum_list (map (\<lambda>i. 0) [1..<L])"
    by (rule sum_list_cong_upt) (use assms in auto)
  then show ?thesis
    using assms by (auto simp: band_at_def refs_concat_map)
qed

lemma sum_list_two_entries:
  fixes f :: "nat \<Rightarrow> nat"
  assumes "\<And>b. b < n \<Longrightarrow> b \<noteq> c \<Longrightarrow> b \<noteq> d \<Longrightarrow> f b = 0" and "c \<noteq> d"
  shows "sum_list (map f [0..<n]) = (if c < n then f c else 0) + (if d < n then f d else 0)"
proof -
  have "sum_list (map f [0..<n])
        = sum_list (map (\<lambda>b. (if b = c then f c else 0) + (if b = d then f d else 0)) [0..<n])"
    by (rule sum_list_cong_upt) (use assms in auto)
  also have "\<dots> = (if 0 \<le> c \<and> c < n then f c else 0) + (if 0 \<le> d \<and> d < n then f d else 0)"
    by (rule sum_list_two_deltas) simp
  finally show ?thesis
    by simp
qed

lemma band_refs:
  assumes L: "3 \<le> L" and k: "1 \<le> k" and j: "j < L"
  shows "refs (1 + (k - 1) * L + j) (tri_band L b)
         = (if b + 1 = k then (if j = 0 then 2 else if j = L - 1 then 4 else 3)
            else if b + 2 = k then (if j = 0 then 4 else if j = L - 1 then 2 else 3)
            else 0)"
proof -
  define p where "p = (k - 1) * L"
  define o' where "o' = b * L"
  have tb: "tri_band L b = band_at L o'"
    by (simp add: tri_band_at o'_def)
  have kL: "(k - 1) * L + L = k * L"
    using k by (cases k) simp_all
  consider (upper) "b + 1 = k" | (lower) "b + 2 = k" | (above) "k \<le> b" | (below) "b + 3 \<le> k"
    by arith
  then have "refs (1 + p + j) (band_at L o')
         = (if b + 1 = k then (if j = 0 then 2 else if j = L - 1 then 4 else 3)
            else if b + 2 = k then (if j = 0 then 4 else if j = L - 1 then 2 else 3)
            else 0)"
  proof cases
    case upper
    then have "k - 1 = b"
      by arith
    then have "p = o'"
      by (simp add: p_def o'_def)
    then show ?thesis
      using band_at_upper [OF L j, of o'] upper by simp
  next
    case lower
    then have "k - 1 = Suc b"
      by arith
    then have "p = o' + L"
      by (simp add: p_def o'_def)
    then have "1 + p + j = 1 + o' + L + j"
      by simp
    then show ?thesis
      using band_at_lower [OF L j, of o'] lower by simp
  next
    case above
    then have "k * L \<le> b * L"
      by (rule mult_le_mono1)
    then have "p + L \<le> o'"
      unfolding p_def o'_def kL .
    then have "1 + p + j \<le> o'"
      using j by linarith
    then have "refs (1 + p + j) (band_at L o') = 0"
      using L by (intro band_at_outside) simp_all
    then show ?thesis
      using above by simp
  next
    case below
    then have "b + 2 \<le> k - 1"
      by arith
    then have "(b + 2) * L \<le> (k - 1) * L"
      by (rule mult_le_mono1)
    then have "o' + 2 * L \<le> p"
      unfolding p_def o'_def by (simp only: add_mult_distrib)
    then have "o' + 2 * L < 1 + p + j"
      by linarith
    then have "refs (1 + p + j) (band_at L o') = 0"
      using L by (intro band_at_outside) simp_all
    then show ?thesis
      using below by simp
  qed
  then show ?thesis
    by (simp only: p_def tb)
qed

lemma bands_refs:
  assumes L: "3 \<le> L" and k: "1 \<le> k" "k < M" and j: "j < L"
  shows "sum_list (map (\<lambda>b. refs (1 + (k - 1) * L + j) (tri_band L b)) [0..<M - 2])
         = (if k < M - 1 then (if j = 0 then 2 else if j = L - 1 then 4 else 3) else 0)
           + (if 2 \<le> k then (if j = 0 then 4 else if j = L - 1 then 2 else 3) else 0)"
proof -
  define f where "f b = refs (1 + (k - 1) * L + j) (tri_band L b)" for b
  have f: "f b = (if b + 1 = k then (if j = 0 then 2 else if j = L - 1 then 4 else 3)
            else if b + 2 = k then (if j = 0 then 4 else if j = L - 1 then 2 else 3)
            else 0)" for b
    unfolding f_def using L k(1) j by (rule band_refs)
  show ?thesis
  proof (cases "2 \<le> k")
    case True
    have zero: "f b = 0" if "b \<noteq> k - 1" "b \<noteq> k - 2" for b
    proof -
      have "b + 1 \<noteq> k" "b + 2 \<noteq> k"
        using that True by arith+
      then show ?thesis
        by (simp add: f)
    qed
    have ne: "k - 1 \<noteq> k - 2"
      using True by arith
    have "sum_list (map f [0..<M - 2])
          = (if k - 1 < M - 2 then f (k - 1) else 0) + (if k - 2 < M - 2 then f (k - 2) else 0)"
      using zero ne by (intro sum_list_two_entries) auto
    moreover have "f (k - 1) = (if j = 0 then 2 else if j = L - 1 then 4 else 3)"
    proof -
      have "k - 1 + 1 = k" using True by arith
      then show ?thesis by (simp add: f)
    qed
    moreover have "f (k - 2) = (if j = 0 then 4 else if j = L - 1 then 2 else 3)"
    proof -
      have "k - 2 + 2 = k" "k - 2 + 1 \<noteq> k" using True by arith+
      then show ?thesis by (simp add: f)
    qed
    moreover have "k - 1 < M - 2 \<longleftrightarrow> k < M - 1" "k - 2 < M - 2"
      using True k by arith+
    ultimately show ?thesis
      using True unfolding f_def by simp
  next
    case False
    with k have k1: "k = 1"
      by simp
    have zero: "f b = 0" if "b \<noteq> 0" "b \<noteq> M" for b
    proof -
      have "b + 1 \<noteq> k" "b + 2 \<noteq> k"
        using that k1 by arith+
      then show ?thesis
        by (simp add: f)
    qed
    have ne: "0 \<noteq> M"
      using k by arith
    have "sum_list (map f [0..<M - 2])
          = (if 0 < M - 2 then f 0 else 0) + (if M < M - 2 then f M else 0)"
      using zero ne by (intro sum_list_two_entries) auto
    moreover have "f 0 = (if j = 0 then 2 else if j = L - 1 then 4 else 3)"
      using k1 by (simp add: f)
    moreover have "0 < M - 2 \<longleftrightarrow> k < M - 1"
      using k1 by arith
    ultimately show ?thesis
      using k1 unfolding f_def by simp
  qed
qed

lemma ring_refs:
  assumes L: "3 \<le> L" and k: "1 \<le> k" "k < M" and j: "j < L"
  shows "refs (1 + (k - 1) * L + j) (triangles L M)
         = (if M = 2 then 4
            else if k = 1 then (if j = 0 then 4 else if j = L - 1 then 6 else 5)
            else if k = M - 1 then (if j = 0 then 6 else if j = L - 1 then 4 else 5)
            else 6)"
proof -
  define p where "p = (k - 1) * L"
  define P where "P = L * (M - 1)"
  let ?v = "1 + p + j"
  have M: "2 \<le> M"
    using k by arith
  have kL: "(k - 1) * L + L = k * L"
    using k by (cases k) simp_all
  have north: "refs ?v (tri_north L) = (if k = 1 then 2 else 0)"
  proof (cases "k = 1")
    case True
    then have "p = 0"
      by (simp add: p_def)
    then show ?thesis
      using north_refs [OF L, of ?v] j True by simp
  next
    case False
    with k have "1 \<le> k - 1" by arith
    then have "1 * L \<le> (k - 1) * L" by (rule mult_le_mono1)
    then have "L \<le> p" by (simp only: p_def mult_1)
    then have "L < ?v" by linarith
    then show ?thesis
      using north_refs [OF L, of ?v] False by simp
  qed
  have "k \<le> M - 1"
    using k by arith
  then have "k * L \<le> (M - 1) * L"
    by (rule mult_le_mono1)
  then have pP: "p + L \<le> P"
    unfolding p_def P_def kL by (simp only: mult.commute)
  have vlt: "?v < P + 1"
    using pP j by linarith
  have south_gen: "refs ?v (tri_south L M) = (if P + 1 - L \<le> ?v then 2 else 0)"
    using south_refs [OF L M, of ?v] vlt unfolding P_def by simp
  have south: "refs ?v (tri_south L M) = (if k = M - 1 then 2 else 0)"
  proof (cases "k = M - 1")
    case True
    then have "P = p + L"
      unfolding p_def P_def kL by (simp only: mult.commute)
    then have "P + 1 - L \<le> ?v"
      by linarith
    then show ?thesis
      using south_gen True by simp
  next
    case False
    with k have "k + 1 \<le> M - 1" by arith
    then have "(k + 1) * L \<le> (M - 1) * L" by (rule mult_le_mono1)
    then have "k * L + L \<le> (M - 1) * L" by (simp only: add_mult_distrib mult_1)
    then have "p + L + L \<le> P"
      unfolding p_def P_def kL by (simp only: mult.commute)
    then have "\<not> P + 1 - L \<le> ?v"
      using j by linarith
    then show ?thesis
      using south_gen False by simp
  qed
  have bands: "sum_list (map (\<lambda>b. refs ?v (tri_band L b)) [0..<M - 2])
      = (if k < M - 1 then (if j = 0 then 2 else if j = L - 1 then 4 else 3) else 0)
        + (if 2 \<le> k then (if j = 0 then 4 else if j = L - 1 then 2 else 3) else 0)"
    using bands_refs [OF L k j] unfolding p_def .
  have "refs ?v (triangles L M)
        = refs ?v (tri_north L)
          + sum_list (map (\<lambda>b. refs ?v (tri_band L b)) [0..<M - 2])
          + refs ?v (tri_south L M)"
    by (simp add: triangles_def refs_concat_map)
  also have "\<dots> = (if k = 1 then 2 else 0)
      + ((if k < M - 1 then (if j = 0 then 2 else if j = L - 1 then 4 else 3) else 0)
         + (if 2 \<le> k then (if j = 0 then 4 else if j = L - 1 then 2 else 3) else 0))
      + (if k = M - 1 then 2 else 0)"
    by (simp only: north south bands)
  also have "\<dots> = (if M = 2 then 4
            else if k = 1 then (if j = 0 then 4 else if j = L - 1 then 6 else 5)
            else if k = M - 1 then (if j = 0 then 6 else if j = L - 1 then 4 else 5)
            else 6)"
    using k L by auto
  finally show ?thesis
    by (simp only: p_def)
qed

subsection \<open>Orientation\<close>















lemma sphere_point_north: "sphere_point r L M 0 = pt r 0 0"
  by (simp add: sphere_point_def pt_def)

lemma sphere_point_south: "sphere_point r L M (L * (M - 1) + 1) = pt r 0 pi"
  by (simp add: sphere_point_def pt_def)

lemma sphere_point_ring:
  assumes "v = 1 + (k - 1) * L + j" and "1 \<le> k" and "k < M" and "j < L"
  shows "sphere_point r L M v = pt r (real j * (2 * pi / real L)) (real k * (pi / real M))"
proof -
  have "(k - 1) * L + j < (k - 1) * L + L"
    using assms(4) by simp
  also have "\<dots> = k * L"
    using assms(2) by (cases k) simp_all
  also have "\<dots> \<le> (M - 1) * L"
    using assms(3) by (intro mult_le_mono1) simp
  finally have "v < L * (M - 1) + 1"
    by (simp add: assms(1) mult.commute)
  moreover have "(v - 1) mod L = j" "(v - 1) div L + 1 = k"
    using assms by (simp_all add: ac_simps)
  ultimately show ?thesis
    by (simp add: sphere_point_def assms(1))
qed




subsection \<open>The sphere in exact arithmetic\<close>

text \<open>
  Without rounding, the vertex buffer of the constructed sphere holds the points of the
  sphere that the specification describes, and their normals are the positions divided by
  the radius, of length 1.
\<close>

lemma exact_ring_position:
  assumes s: "Sphere exact r n_lon n_lat = Inr s" and lat: "1 \<le> n_lat"
    and k: "1 \<le> k" "k < unat n_lat" and j: "j < unat n_lon"
    and v: "v = 1 + (k - 1) * unat n_lon + j"
  shows "vertex_position s v
         = pt r (real j * (2 * pi / real (unat n_lon))) (real k * (pi / real (unat n_lat)))"
proof -
  note cv = constructed_vertices [OF s lat]
  have "(k - 1) * unat n_lon + j < (k - 1) * unat n_lon + unat n_lon"
    using j by simp
  also have "\<dots> = k * unat n_lon"
    using k by (cases k) simp_all
  also have "\<dots> \<le> (unat n_lat - 1) * unat n_lon"
    using k by (intro mult_le_mono1) simp
  finally have "v < 2 + unat n_lon * (unat n_lat - 1)"
    by (simp add: v mult.commute)
  then have "vertex_position s v = positions exact r n_lon n_lat ! v"
    by (rule cv(2))
  also have "\<dots> = ring_vertex exact r n_lon n_lat (word_of_nat k) (word_of_nat j)"
    unfolding v using k j by (rule positions_ring)
  finally have p: "vertex_position s v
                   = ring_vertex exact r n_lon n_lat (word_of_nat k) (word_of_nat j)" .
  have "k < 2 ^ 32" "j < 2 ^ 32"
    using k j unat_lt_u32 [of n_lat] unat_lt_u32 [of n_lon] by simp_all
  then have "k < 2 ^ 64" "j < 2 ^ 64"
    by simp_all
  then have "unat (word_of_nat k :: size_t) = k" "unat (word_of_nat j :: size_t) = j"
    by (simp_all add: unat_of_nat)
  then show ?thesis
    by (simp add: p ring_vertex_exact pt_def)
qed

lemma exact_pole_positions:
  assumes s: "Sphere exact r n_lon n_lat = Inr s" and lat: "1 \<le> n_lat"
  shows "vertex_position s 0 = pt r 0 0"
    and "vertex_position s (unat n_lon * (unat n_lat - 1) + 1) = pt r 0 pi"
proof -
  note cv = constructed_vertices [OF s lat]
  have "(0 :: nat) < 2 + unat n_lon * (unat n_lat - 1)"
    by simp
  then have "vertex_position s 0 = positions exact r n_lon n_lat ! 0"
    by (rule cv(2))
  then show "vertex_position s 0 = pt r 0 0"
    by (simp add: positions_north pt_def)
  have "unat n_lon * (unat n_lat - 1) + 1 < 2 + unat n_lon * (unat n_lat - 1)"
    by simp
  then have "vertex_position s (unat n_lon * (unat n_lat - 1) + 1)
             = positions exact r n_lon n_lat ! (unat n_lon * (unat n_lat - 1) + 1)"
    by (rule cv(2))
  also have "\<dots> = (f_zero exact, f_neg exact r, f_zero exact)"
    by (rule positions_south)
  finally show "vertex_position s (unat n_lon * (unat n_lat - 1) + 1) = pt r 0 pi"
    by (simp add: pt_def)
qed

lemma exact_sphere_point:
  assumes s: "Sphere exact r n_lon n_lat = Inr s" and lat: "1 \<le> n_lat"
    and v: "v < 2 + unat n_lon * (unat n_lat - 1)"
  shows "vertex_position s v = sphere_point r (unat n_lon) (unat n_lat) v"
proof -
  define L where "L = unat n_lon"
  define M where "M = unat n_lat"
  consider "v = 0" | "v = L * (M - 1) + 1" | "0 < v" "v < L * (M - 1) + 1"
    using v unfolding L_def M_def by linarith
  then show ?thesis
  proof cases
    case 1
    then show ?thesis
      using exact_pole_positions(1) [OF s lat] by (simp add: sphere_point_north)
  next
    case 2
    then show ?thesis
      using exact_pole_positions(2) [OF s lat] sphere_point_south [of r L M]
      by (simp add: L_def M_def)
  next
    case 3
    define k where "k = (v - 1) div L + 1"
    define j where "j = (v - 1) mod L"
    from 3 have "v - 1 < L * (M - 1)"
      by simp
    then have L: "0 < L" and q: "(v - 1) div L < M - 1"
      by (simp_all add: less_mult_imp_div_less mult.commute) (cases L, simp_all)
    have k: "1 \<le> k" "k < M" and j: "j < L"
      using q L by (simp_all add: k_def j_def)
    have "v - 1 = (k - 1) * L + j"
      by (simp add: k_def j_def)
    with 3 have vv: "v = 1 + (k - 1) * L + j"
      by simp
    have "vertex_position s v
          = pt r (real j * (2 * pi / real (unat n_lon))) (real k * (pi / real (unat n_lat)))"
      using s lat k j vv unfolding L_def M_def by (rule exact_ring_position)
    moreover have "sphere_point r L M v = pt r (real j * (2 * pi / real L)) (real k * (pi / real M))"
      using vv k j by (rule sphere_point_ring)
    ultimately show ?thesis
      by (simp add: L_def M_def)
  qed
qed

lemma exact_unit_normals:
  assumes s: "Sphere exact r n_lon n_lat = Inr s" and lat: "1 \<le> n_lat" and r: "0 < r"
    and v: "v < 2 + unat n_lon * (unat n_lat - 1)"
  shows "norm3 (vertex_position s v) = r"
    and "vertex_normal s v = (case vertex_position s v of (x, y, z) \<Rightarrow> (x / r, y / r, z / r))"
    and "norm3 (vertex_normal s v) = 1"
proof -
  note cv = constructed_vertices [OF s lat]
  obtain x y z where p: "positions exact r n_lon n_lat ! v = (x, y, z)"
    by (cases "positions exact r n_lon n_lat ! v")
  have "positions exact r n_lon n_lat ! v \<in> set (positions exact r n_lon n_lat)"
    using v by (intro nth_mem) (simp add: length_positions n_vertices_def)
  then have n: "x * x + y * y + z * z = r * r"
    by (simp only: p positions_exact_norm)
  have pos: "vertex_position s v = (x, y, z)"
    using cv(2) [OF v] p by simp
  have nor: "vertex_normal s v = f_normalize exact (x, y, z)"
    using cv(3) [OF v] p by simp
  show "norm3 (vertex_position s v) = r"
    using r by (simp add: pos norm3_def n real_sqrt_mult)
  show "vertex_normal s v = (case vertex_position s v of (x, y, z) \<Rightarrow> (x / r, y / r, z / r))"
    using normalize_exact_radius(1) [OF n r] by (simp add: pos nor)
  show "norm3 (vertex_normal s v) = 1"
    using normalize_exact_radius(2) [OF n r] by (simp add: nor)
qed

lemma exact_pole_normals:
  assumes s: "Sphere exact r n_lon n_lat = Inr s" and lat: "1 \<le> n_lat" and r: "0 < r"
  shows "vertex_normal s 0 = (0, 1, 0)"
    and "vertex_normal s (unat n_lon * (unat n_lat - 1) + 1) = (0, - 1, 0)"
proof -
  have "f_normalize exact (0, r, 0) = (0 / r, r / r, 0 / r)"
    by (rule normalize_exact_radius) (use r in simp_all)
  moreover have "f_normalize exact (0, - r, 0) = (0 / r, - r / r, 0 / r)"
    by (rule normalize_exact_radius) (use r in simp_all)
  ultimately show "vertex_normal s 0 = (0, 1, 0)"
    and "vertex_normal s (unat n_lon * (unat n_lat - 1) + 1) = (0, - 1, 0)"
    using constructed_poles(2,4) [OF s lat] r by simp_all
qed

section \<open>The properties\<close>

subsection \<open>C1\<close>

text \<open>
  C1 as stated fails: with 65536 longitudes and 65537 latitudes both preconditions hold and
  the claimed vertex count is \<open>2 + 65536 * 65536 = 4294967298\<close>, but the constructor computes
  \<open>1 + 65536 * 65536 + 1\<close> in \<^verbatim>\<open>unsigned int\<close>, where it wraps to 2, resizes the buffer to 12
  floats, and yields no sphere.
\<close>

theorem C1_counterexample:
  "(3 :: u32) \<le> 65536 \<and> (2 :: u32) \<le> 65537 \<and>
   2 + unat (65536 :: u32) * (unat (65537 :: u32) - 1) = 4294967298 \<and>
   unat (m_n_vertexes (init_sphere binary32 (Finite False 1) 65536 65537)) = 2 \<and>
   length (m_vertexes (init_sphere binary32 (Finite False 1) 65536 65537)) = 12 \<and>
   Sphere binary32 (Finite False 1) 65536 65537 = Inl OutOfBounds"
proof -
  have "\<not> fits 65536 65537"
    by (simp add: fits_def n_vertices_def)
  then have "Sphere binary32 (Finite False 1) 65536 65537 \<noteq> Inr s" for s
    using Sphere_Inr_fits [of binary32 "Finite False 1" 65536 65537 s] by auto
  then have "Sphere binary32 (Finite False 1) 65536 65537 = Inl OutOfBounds"
    by (cases "Sphere binary32 (Finite False 1) 65536 65537") (auto intro: fault.exhaust)
  then show ?thesis
    by (simp add: init_sphere_def m_n_coords_def)
qed

text \<open>
  C1, amended. For every radius, a longitude count of at least 3 and a latitude count of at
  least 2 such that the buffer size \<open>6 * (2 + longitudes * (latitudes - 1))\<close> is below \<open>2 ^ 32\<close>,
  the constructor yields a sphere with exactly \<open>2 + longitudes * (latitudes - 1)\<close> vertices,
  its vertex buffer holds 6 floats for each of them, its index list has exactly
  \<open>6 * longitudes * (latitudes - 1)\<close> entries, a multiple of 3, and \<^verbatim>\<open>get_n_elements\<close> returns
  that number.
\<close>

theorem C1_counts:
  assumes "3 \<le> n_lon" and "2 \<le> n_lat"
    and "6 * (2 + unat n_lon * (unat n_lat - 1)) < 2 ^ 32"
  shows "\<exists>s. Sphere ops r n_lon n_lat = Inr s \<and>
           unat (m_n_vertexes s) = 2 + unat n_lon * (unat n_lat - 1) \<and>
           length (get_vertexes s) = 6 * (2 + unat n_lon * (unat n_lat - 1)) \<and>
           length (m_indices s) = 6 * unat n_lon * (unat n_lat - 1) \<and>
           3 dvd length (m_indices s) \<and>
           unat (get_n_elements s) = 6 * unat n_lon * (unat n_lat - 1)"
proof -
  have lat1: "1 \<le> n_lat"
    using assms(2) by (simp add: word_le_nat_alt)
  have L: "1 \<le> unat n_lon" and M: "2 \<le> unat n_lat"
    using assms(1,2) by (simp_all add: word_le_nat_alt)
  have f: "fits n_lon n_lat"
    using assms(3) by (simp add: fits_def n_vertices_def)
  from Sphere_fits [OF lat1 f, of ops r] obtain s where s: "Sphere ops r n_lon n_lat = Inr s"
    by simp
  note res = Sphere_result [OF s lat1]
  note small = fits_no_wrap [OF res(1)]
  have nv: "unat (m_n_vertexes s) = n_vertices n_lon n_lat"
    using unat_of_nat_u32 [OF small(1)] by (subst res(2)) simp
  have lv: "length (get_vertexes s) = 6 * n_vertices n_lon n_lat"
    by (subst res(2)) (simp add: get_vertexes_def length_positions)
  have li: "length (m_indices s) = 6 * unat n_lon * (unat n_lat - 1)"
    by (subst res(2)) (simp add: length_indices_of_valid [OF L M])
  have "get_n_elements s = word_of_nat (length (m_indices s))"
    by (simp add: get_n_elements_def ucast_of_nat_down)
  then have ge: "unat (get_n_elements s) = 6 * unat n_lon * (unat n_lat - 1)"
    using unat_of_nat_u32 [OF small(3)] by (simp add: li)
  have "3 dvd length (m_indices s)"
    by (simp add: li)
  with s nv lv li ge show ?thesis
    by (simp add: n_vertices_def)
qed

theorem C1_counts_witness:
  "(3 :: u32) \<le> 4 \<and> (2 :: u32) \<le> 3 \<and>
   6 * (2 + unat (4 :: u32) * (unat (3 :: u32) - 1)) < (2 :: nat) ^ 32 \<and>
   (\<exists>s. Sphere binary32 (Finite False 1) 4 3 = Inr s \<and> unat (m_n_vertexes s) = 10 \<and>
        length (get_vertexes s) = 60 \<and> length (m_indices s) = 48 \<and>
        3 dvd length (m_indices s) \<and> unat (get_n_elements s) = 48)"
  using C1_counts [of 4 3 binary32 "Finite False 1"] by simp

subsection \<open>C2\<close>



subsection \<open>C3\<close>




subsection \<open>C4\<close>

text \<open>
  C4 as stated fails on the machine. With the radius \<^verbatim>\<open>1.7f\<close>, the float \<open>7130317 / 4194304\<close>,
  3 longitudes and 2 latitudes, the stored normals of the poles, vertices 0 and 4, are
  \<open>(0, 16777215 / 16777216, 0)\<close> and \<open>(0, - 16777215 / 16777216, 0)\<close>: the square of the radius,
  its square root and the inverse are each rounded, and the radius times the rounded inverse
  is one unit in the last place below 1.
\<close>

theorem C4_counterexample:
  "(3 :: u32) \<le> 3 \<and> (2 :: u32) \<le> 2 \<and>
   fp_round fmt32 False (17 / 10) = Finite False (7130317 / 4194304) \<and>
   \<not> isl (Sphere binary32 (Finite False (7130317 / 4194304)) 3 2) \<and>
   vertex_position (projr (Sphere binary32 (Finite False (7130317 / 4194304)) 3 2)) 0
     = (Finite False 0, Finite False (7130317 / 4194304), Finite False 0) \<and>
   vertex_normal (projr (Sphere binary32 (Finite False (7130317 / 4194304)) 3 2)) 0
     = (Finite False 0, Finite False (16777215 / 16777216), Finite False 0) \<and>
   vertex_position (projr (Sphere binary32 (Finite False (7130317 / 4194304)) 3 2)) 4
     = (Finite False 0, Finite True (7130317 / 4194304), Finite False 0) \<and>
   vertex_normal (projr (Sphere binary32 (Finite False (7130317 / 4194304)) 3 2)) 4
     = (Finite False 0, Finite True (16777215 / 16777216), Finite False 0)"
proof -
  have one: "(1 :: u32) \<le> 2"
    by simp
  obtain t where t: "Sphere binary32 (Finite False (7130317 / 4194304)) 3 2 = Inr t"
    by (rule built_3_2)
  note p = constructed_poles [OF t one]
  have p0: "vertex_position t 0 = (Finite False 0, Finite False (7130317 / 4194304), Finite False 0)"
    using p(1) by simp
  have n0: "vertex_normal t 0 = (Finite False 0, Finite False (16777215 / 16777216), Finite False 0)"
    using p(2) by (simp add: normalize_17)
  have p4: "vertex_position t 4 = (Finite False 0, Finite True (7130317 / 4194304), Finite False 0)"
    using p(3) by (simp add: fp_neg_def)
  have n4: "vertex_normal t 4 = (Finite False 0, Finite True (16777215 / 16777216), Finite False 0)"
    using p(4) by (simp add: fp_neg_def normalize_17_neg)
  have r2: "fp_round fmt32 False (17 / 10) = Finite False (7130317 / 4194304)"
    by (simp add: fp_eval)
  from r2 show ?thesis
    by (simp add: t p0 n0 p4 n4)
qed

text \<open>
  C4, amended. In every sphere that the constructor yields from at least 3 longitudes and 2
  latitudes, vertex 0 has position \<open>(0, r, 0)\<close> and the last vertex, at index
  \<open>longitudes * (latitudes - 1) + 1\<close>, has position \<open>(0, - r, 0)\<close>; their normals are
  \<^verbatim>\<open>glm::normalize\<close> of these positions, whatever the \<^verbatim>\<open>float\<close> arithmetic is. On the machine
  these are \<open>(0, 1, 0)\<close> and \<open>(0, - 1, 0)\<close> for the radius 1, and not for every radius.
\<close>

theorem C4_poles:
  assumes "3 \<le> n_lon" and "2 \<le> n_lat" and "Sphere ops r n_lon n_lat = Inr s"
  shows "vertex_position s 0 = (f_zero ops, r, f_zero ops) \<and>
         vertex_normal s 0 = f_normalize ops (f_zero ops, r, f_zero ops) \<and>
         vertex_position s (unat n_lon * (unat n_lat - 1) + 1)
           = (f_zero ops, f_neg ops r, f_zero ops) \<and>
         vertex_normal s (unat n_lon * (unat n_lat - 1) + 1)
           = f_normalize ops (f_zero ops, f_neg ops r, f_zero ops)"
proof -
  have lat1: "1 \<le> n_lat"
    using assms(2) by (simp add: word_le_nat_alt)
  from constructed_poles [OF assms(3) lat1] show ?thesis
    by (intro conjI)
qed

theorem C4_poles_witness:
  "(3 :: u32) \<le> 4 \<and> (2 :: u32) \<le> 3 \<and>
   (\<exists>s. Sphere binary32 (Finite False 1) 4 3 = Inr s \<and>
        vertex_position s 0 = (Finite False 0, Finite False 1, Finite False 0) \<and>
        vertex_normal s 0 = (Finite False 0, Finite False 1, Finite False 0) \<and>
        vertex_position s 9 = (Finite False 0, Finite True 1, Finite False 0) \<and>
        vertex_normal s 9 = (Finite False 0, Finite True 1, Finite False 0))"
proof -
  have "fits 4 3"
    by (simp add: fits_def n_vertices_def)
  then obtain s where s: "Sphere binary32 (Finite False 1) 4 3 = Inr s"
    using Sphere_fits [of 3 4 binary32 "Finite False 1"] by simp
  have h1: "(3 :: u32) \<le> 4" and h2: "(2 :: u32) \<le> 3"
    by simp_all
  have "vertex_position s 0 = (Finite False 0, Finite False 1, Finite False 0) \<and>
        vertex_normal s 0 = (Finite False 0, Finite False 1, Finite False 0) \<and>
        vertex_position s 9 = (Finite False 0, Finite True 1, Finite False 0) \<and>
        vertex_normal s 9 = (Finite False 0, Finite True 1, Finite False 0)"
    using C4_poles [OF h1 h2 s] by (simp add: fp_neg_def normalize_1)
  with s h1 h2 show ?thesis
    by (intro conjI exI [of _ s]) simp_all
qed

subsection \<open>C5\<close>

text \<open>
  C5. For every longitude count of at least 3 and latitude count of at least 2, every value
  that \<^verbatim>\<open>set_indices\<close> appends (north cap, body bands with their closing triangles, south
  cap) is below the vertex count \<open>2 + longitudes * (latitudes - 1)\<close>; in every sphere that the
  constructor yields, each index is below \<open>m_n_vertexes\<close> and names a whole 6-float record of
  the vertex buffer.
\<close>

theorem C5_index_bound:
  assumes "3 \<le> n_lon" and "2 \<le> n_lat"
  shows "(\<forall>v \<in> set (m_indices (set_indices (init_sphere ops r n_lon n_lat))).
            unat v < 2 + unat n_lon * (unat n_lat - 1)) \<and>
         (\<forall>s. Sphere ops r n_lon n_lat = Inr s \<longrightarrow>
            (\<forall>v \<in> set (m_indices s).
               v < m_n_vertexes s \<and> 6 * unat v + 5 < length (m_vertexes s)))"
proof -
  have lat1: "1 \<le> n_lat"
    using assms(2) by (simp add: word_le_nat_alt)
  have L: "1 \<le> unat n_lon" and M: "2 \<le> unat n_lat"
    using assms by (simp_all add: word_le_nat_alt)
  have "m_indices (set_indices (init_sphere ops r n_lon n_lat)) = indices_of n_lon n_lat"
    by (simp add: set_indices_closed init_sphere_def Let_def)
  then have first: "\<forall>v \<in> set (m_indices (set_indices (init_sphere ops r n_lon n_lat))).
            unat v < 2 + unat n_lon * (unat n_lat - 1)"
    using indices_of_bound [OF L M] by simp
  have second: "v < m_n_vertexes s \<and> 6 * unat v + 5 < length (m_vertexes s)"
    if s: "Sphere ops r n_lon n_lat = Inr s" and v: "v \<in> set (m_indices s)" for s v
  proof -
    note res = Sphere_result [OF s lat1]
    note small = fits_no_wrap [OF res(1)]
    have "v \<in> set (indices_of n_lon n_lat)"
      using v by (subst (asm) res(2)) simp
    then have b: "unat v < n_vertices n_lon n_lat"
      using indices_of_bound [OF L M] by (simp add: n_vertices_def)
    have nv: "unat (m_n_vertexes s) = n_vertices n_lon n_lat"
      using unat_of_nat_u32 [OF small(1)] by (subst res(2)) simp
    have lv: "length (m_vertexes s) = 6 * n_vertices n_lon n_lat"
      by (subst res(2)) (simp add: length_positions)
    from b nv lv show ?thesis
      by (simp add: word_less_nat_alt)
  qed
  from first second show ?thesis
    by blast
qed

theorem C5_index_bound_witness:
  "(3 :: u32) \<le> 4 \<and> (2 :: u32) \<le> 2 \<and>
   list_all (\<lambda>v. unat v < 6) (m_indices (set_indices (init_sphere exact 1 4 2))) \<and>
   (\<exists>s. Sphere exact 1 4 2 = Inr s \<and>
        list_all (\<lambda>v. v < m_n_vertexes s \<and> 6 * unat v + 5 < length (m_vertexes s))
          (m_indices s))"
proof -
  have "fits 4 2"
    by (simp add: fits_def n_vertices_def)
  then obtain s where s: "Sphere exact 1 4 2 = Inr s"
    using Sphere_fits [of 2 4 exact 1] by simp
  have h1: "(3 :: u32) \<le> 4" and h2: "(2 :: u32) \<le> 2"
    by simp_all
  from C5_index_bound [OF h1 h2, of exact 1] s h1 h2 show ?thesis
    by (auto simp: list_all_iff)
qed

subsection \<open>C6\<close>





subsection \<open>C7\<close>

text \<open>
  C7 as stated fails for the wraparound quad. With 3 longitudes and 3 latitudes the only body
  band joins ring \<open>1, 2, 3\<close> to ring \<open>4, 5, 6\<close>. The split of the claim gives, for the quad
  that closes the band (upper vertices 3 and 1, lower vertices 6 and 4), the triangles
  \<open>(3, 1, 6)\<close> and \<open>(1, 4, 6)\<close>; the code emits \<open>(1, 4, 3)\<close> and \<open>(3, 4, 6)\<close>, which share the
  other diagonal. Neither triangle of the claim is in the index list, in any rotation;
  nor are \<open>(1, 3, 4)\<close> and \<open>(3, 6, 4)\<close>, the triangles \<open>(p0, p1, p2)\<close> and \<open>(p1, p3, p2)\<close> for
  the \<open>p0 = 1\<close>, \<open>p1 = 3\<close>, \<open>p2 = 4\<close>, \<open>p3 = 6\<close> of the source's closing statement.
\<close>

theorem C7_counterexample:
  "take 6 (drop 3 (triples (map unat (m_indices (set_indices (init_sphere exact 1 3 3))))))
     = [(1, 2, 4), (2, 5, 4), (2, 3, 5), (3, 6, 5), (1, 4, 3), (3, 4, 6)] \<and>
   spec_band 3 0 = [(1, 2, 4), (2, 5, 4), (2, 3, 5), (3, 6, 5), (3, 1, 6), (1, 4, 6)] \<and>
   set [(3, 1, 6), (1, 6, 3), (6, 3, 1), (1, 4, 6), (4, 6, 1), (6, 1, 4),
        (1, 3, 4), (3, 4, 1), (4, 1, 3), (3, 6, 4), (6, 4, 3), (4, 3, 6)]
     \<inter> set (triples (map unat (m_indices (set_indices (init_sphere exact 1 3 3))))) = {}"
  by (simp add: triples_3_3 triangles_3_3 spec_band_def Let_def upt_3)

text \<open>
  C7, amended. In every sphere that the constructor yields from at least 3 longitudes and 2
  latitudes, band \<open>b\<close> occupies the triples \<open>L + 2 * L * b, \<dots>\<close> of the index list (\<open>L\<close> the
  longitude count). For \<open>i = 1, \<dots>, L - 1\<close> the quad with upper vertices \<open>p0 = i + b * L\<close>,
  \<open>p1 = p0 + 1\<close> and lower vertices \<open>p2 = p0 + L\<close>, \<open>p3 = p2 + 1\<close> is split into
  \<open>(p0, p1, p2)\<close> and \<open>(p1, p3, p2)\<close>. The quad that closes the band, with \<open>p0 = 1 + b * L\<close>
  the first and \<open>p1 = L + b * L\<close> the last vertex of the upper ring, \<open>p2 = p0 + L\<close> and
  \<open>p3 = p1 + L\<close>, is split into \<open>(p0, p2, p1)\<close> and \<open>(p1, p2, p3)\<close>: along the diagonal from the
  last vertex of the upper ring to the first vertex of the lower ring.
\<close>

theorem C7_quad_split:
  assumes "3 \<le> n_lon" and "2 \<le> n_lat" and "Sphere ops r n_lon n_lat = Inr s"
  shows "(\<forall>b i. b < unat n_lat - 2 \<and> 1 \<le> i \<and> i < unat n_lon \<longrightarrow>
            (let L = unat n_lon; p0 = i + b * L; p1 = p0 + 1; p2 = p0 + L; p3 = p2 + 1;
                 T = triples (map unat (m_indices s))
             in T ! (L + 2 * L * b + 2 * (i - 1)) = (p0, p1, p2) \<and>
                T ! (L + 2 * L * b + 2 * (i - 1) + 1) = (p1, p3, p2))) \<and>
         (\<forall>b. b < unat n_lat - 2 \<longrightarrow>
            (let L = unat n_lon; p0 = 1 + b * L; p1 = L + b * L; p2 = p0 + L; p3 = p1 + L;
                 T = triples (map unat (m_indices s))
             in T ! (L + 2 * L * b + 2 * (L - 1)) = (p0, p2, p1) \<and>
                T ! (L + 2 * L * b + 2 * (L - 1) + 1) = (p1, p2, p3)))"
proof -
  let ?L = "unat n_lon" and ?M = "unat n_lat"
  have L: "1 \<le> ?L" "3 \<le> ?L"
    using assms(1) by (simp_all add: word_le_nat_alt)
  have T: "triples (map unat (m_indices s)) = triangles ?L ?M"
    using assms(3,2) by (rule constructed_triangles)
  have at: "triangles ?L ?M ! (?L + 2 * ?L * b + t) = tri_band ?L b ! t"
    if "b < ?M - 2" "t < 2 * ?L" for b t
    using triangles_band_nth [OF L(1) that] by (simp add: mult.commute mult.left_commute)
  have quad: "triangles ?L ?M ! (?L + 2 * ?L * b + 2 * (i - 1)) = (i + b * ?L, i + b * ?L + 1, i + b * ?L + ?L) \<and>
              triangles ?L ?M ! (?L + 2 * ?L * b + 2 * (i - 1) + 1)
                = (i + b * ?L + 1, i + b * ?L + ?L + 1, i + b * ?L + ?L)"
    if b: "b < ?M - 2" and i: "1 \<le> i" "i < ?L" for b i
  proof -
    have "2 * (i - 1) < 2 * ?L" "2 * (i - 1) + 1 < 2 * ?L"
      using i by arith+
    then show ?thesis
      using at [OF b, of "2 * (i - 1)"] at [OF b, of "2 * (i - 1) + 1"] tri_band_nth(1,2) [OF i, of b]
      by (simp add: add.assoc add.commute add.left_commute)
  qed
  have wrap: "triangles ?L ?M ! (?L + 2 * ?L * b + 2 * (?L - 1)) = (1 + b * ?L, 1 + b * ?L + ?L, ?L + b * ?L) \<and>
              triangles ?L ?M ! (?L + 2 * ?L * b + 2 * (?L - 1) + 1)
                = (?L + b * ?L, 1 + b * ?L + ?L, ?L + b * ?L + ?L)"
    if b: "b < ?M - 2" for b
  proof -
    have i: "1 \<le> (1 :: nat)" "1 < ?L"
      using L by simp_all
    have "2 * (?L - 1) < 2 * ?L" "2 * (?L - 1) + 1 < 2 * ?L"
      using L by arith+
    then show ?thesis
      using at [OF b, of "2 * (?L - 1)"] at [OF b, of "2 * (?L - 1) + 1"] tri_band_nth(3,4) [OF i, of b]
      by (simp add: add.assoc add.commute add.left_commute)
  qed
  from quad wrap show ?thesis
    by (simp add: T Let_def)
qed

theorem C7_quad_split_witness:
  "(3 :: u32) \<le> 3 \<and> (2 :: u32) \<le> 3 \<and>
   (\<exists>s. Sphere exact 1 3 3 = Inr s \<and>
        triples (map unat (m_indices s)) ! 3 = (1, 2, 4) \<and>
        triples (map unat (m_indices s)) ! 4 = (2, 5, 4) \<and>
        triples (map unat (m_indices s)) ! 7 = (1, 4, 3) \<and>
        triples (map unat (m_indices s)) ! 8 = (3, 4, 6))"
proof -
  have "fits 3 3"
    by (simp add: fits_def n_vertices_def)
  then obtain s where s: "Sphere exact 1 3 3 = Inr s"
    using Sphere_fits [of 3 3 exact 1] by simp
  have h1: "(3 :: u32) \<le> 3" and h2: "(2 :: u32) \<le> 3"
    by simp_all
  note t = C7_quad_split [OF h1 h2 s]
  have a: "triples (map unat (m_indices s)) ! 3 = (1, 2, 4) \<and>
           triples (map unat (m_indices s)) ! 4 = (2, 5, 4)"
    using t [THEN conjunct1, rule_format, of 0 1] by (simp add: Let_def)
  have b: "triples (map unat (m_indices s)) ! 7 = (1, 4, 3) \<and>
           triples (map unat (m_indices s)) ! 8 = (3, 4, 6)"
    using t [THEN conjunct2, rule_format, of 0] by (simp add: Let_def)
  from a b s h1 h2 show ?thesis
    by (intro conjI exI [of _ s]) simp_all
qed

subsection \<open>C8\<close>

text \<open>
  C8 as stated fails. With 3 longitudes and 3 latitudes both rings are next to a cap, and
  vertex 2 (the middle vertex of the first ring) is referenced by 5 triples: two of the
  north cap and three of the body band.
\<close>

theorem C8_counterexample:
  "refs 2 (triples (map unat (m_indices (set_indices (init_sphere exact 1 3 3))))) = 5"
  by (simp add: triples_3_3 triangles_3_3)

text \<open>
  C8, amended. In every sphere that the constructor yields from at least 3 longitudes and 2
  latitudes, the number of index triples that reference the vertex \<open>j\<close> of ring \<open>k\<close> is
  \<^item> 4 when there are 2 latitudes (the single ring is next to both caps);
  \<^item> 6 when the ring is next to neither cap;
  \<^item> otherwise 5, except at the seam: in the first ring the first vertex is referenced by 4
    triples and the last by 6, in the last ring the first by 6 and the last by 4.
\<close>

theorem C8_references:
  assumes "3 \<le> n_lon" and "2 \<le> n_lat" and "Sphere ops r n_lon n_lat = Inr s"
  shows "\<forall>k j. 1 \<le> k \<and> k < unat n_lat \<and> j < unat n_lon \<longrightarrow>
           refs (1 + (k - 1) * unat n_lon + j) (triples (map unat (m_indices s)))
           = (if unat n_lat = 2 then 4
              else if k = 1 then (if j = 0 then 4 else if j = unat n_lon - 1 then 6 else 5)
              else if k = unat n_lat - 1 then (if j = 0 then 6 else if j = unat n_lon - 1 then 4 else 5)
              else 6)"
proof -
  have L: "3 \<le> unat n_lon"
    using assms(1) by (simp add: word_le_nat_alt)
  have T: "triples (map unat (m_indices s)) = triangles (unat n_lon) (unat n_lat)"
    using assms(3,2) by (rule constructed_triangles)
  show ?thesis
    unfolding T using ring_refs [OF L] by blast
qed

theorem C8_references_witness:
  "(3 :: u32) \<le> 4 \<and> (2 :: u32) \<le> 4 \<and>
   (\<exists>s. Sphere exact 1 4 4 = Inr s \<and>
        refs (1 + (2 - 1) * 4 + 1) (triples (map unat (m_indices s))) = 6 \<and>
        refs (1 + (1 - 1) * 4 + 1) (triples (map unat (m_indices s))) = 5 \<and>
        refs (1 + (1 - 1) * 4 + 0) (triples (map unat (m_indices s))) = 4)"
proof -
  have "fits 4 4"
    by (simp add: fits_def n_vertices_def)
  then obtain s where s: "Sphere exact 1 4 4 = Inr s"
    using Sphere_fits [of 4 4 exact 1] by simp
  have h1: "(3 :: u32) \<le> 4" and h2: "(2 :: u32) \<le> 4"
    by simp_all
  note t = C8_references [OF h1 h2 s, rule_format]
  have a: "refs (1 + (2 - 1) * 4 + 1) (triples (map unat (m_indices s))) = 6"
    using t [of 2 1] by simp
  have b: "refs (1 + (1 - 1) * 4 + 1) (triples (map unat (m_indices s))) = 5"
    using t [of 1 1] by simp
  have c: "refs (1 + (1 - 1) * 4 + 0) (triples (map unat (m_indices s))) = 4"
    using t [of 1 0] by simp
  show ?thesis
    by (intro conjI exI [of _ s]) (rule h1 h2 s a b c)+
qed

subsection \<open>C9\<close>

text \<open>
  C9 as stated fails: with 65536 longitudes and 65537 latitudes both preconditions hold, but
  \<open>1 + 65536 * 65536 + 1\<close> wraps to 2 in \<^verbatim>\<open>unsigned int\<close>, the buffer is resized to 12 floats,
  and the third vertex is written at index 12.
\<close>

theorem C9_counterexample:
  "(3 :: u32) \<le> 65536 \<and> (2 :: u32) \<le> 65537 \<and> Sphere exact 1 65536 65537 = Inl OutOfBounds"
proof -
  have "\<not> fits 65536 65537"
    by (simp add: fits_def n_vertices_def)
  then have "Sphere exact 1 65536 65537 \<noteq> Inr s" for s
    using Sphere_Inr_fits [of exact 1 65536 65537 s] by auto
  then have "Sphere exact 1 65536 65537 = Inl OutOfBounds"
    by (cases "Sphere exact 1 65536 65537") (auto intro: fault.exhaust)
  then show ?thesis
    by simp
qed

text \<open>
  C9, amended. For a longitude count of at least 3 and a latitude count of at least 2, every
  read and write of the vertex buffer during construction is within the buffer exactly when
  the buffer size \<open>6 * (2 + longitudes * (latitudes - 1))\<close> is below \<open>2 ^ 32\<close>; the buffer then
  has that many floats. Otherwise construction accesses the buffer out of bounds.
\<close>

theorem C9_bounds:
  assumes "3 \<le> n_lon" and "2 \<le> n_lat"
  shows "((\<exists>s. Sphere ops r n_lon n_lat = Inr s \<and>
               length (m_vertexes s) = 6 * (2 + unat n_lon * (unat n_lat - 1)))
          \<longleftrightarrow> 6 * (2 + unat n_lon * (unat n_lat - 1)) < 2 ^ 32) \<and>
         ((Sphere ops r n_lon n_lat = Inl OutOfBounds)
          \<longleftrightarrow> 2 ^ 32 \<le> 6 * (2 + unat n_lon * (unat n_lat - 1)))"
proof -
  have lat1: "1 \<le> n_lat"
    using assms(2) by (simp add: word_le_nat_alt)
  have f: "fits n_lon n_lat \<longleftrightarrow> 6 * (2 + unat n_lon * (unat n_lat - 1)) < 2 ^ 32"
    by (simp add: fits_def n_vertices_def)
  have ok: "\<exists>s. Sphere ops r n_lon n_lat = Inr s \<and>
               length (m_vertexes s) = 6 * (2 + unat n_lon * (unat n_lat - 1))"
    if "fits n_lon n_lat"
    using Sphere_fits [OF lat1 that, of ops r]
    by (simp add: length_positions n_vertices_def)
  have bad: "Sphere ops r n_lon n_lat = Inl OutOfBounds" if "\<not> fits n_lon n_lat"
  proof (cases "Sphere ops r n_lon n_lat")
    case (Inl e)
    then show ?thesis by (cases e) simp
  next
    case (Inr s)
    with that Sphere_Inr_fits [OF Inr lat1] show ?thesis by simp
  qed
  show ?thesis
    using ok bad f by (cases "fits n_lon n_lat") auto
qed

theorem C9_bounds_witness:
  "(3 :: u32) \<le> 4 \<and> (2 :: u32) \<le> 2 \<and>
   (\<exists>s. Sphere exact 1 4 2 = Inr s \<and> length (m_vertexes s) = 36) \<and>
   Sphere exact 1 4 2 \<noteq> Inl OutOfBounds"
  using C9_bounds [of 4 2 exact 1] by simp

subsection \<open>C10\<close>

text \<open>
  C10. With a latitude count of 1 the constructor does not reject the input and no access
  faults: the vertex buffer is sized for 2 vertices (12 floats), while the bound
  \<open>m_n_latitudes - 2\<close> of the body-band loop wraps to 4294967295, so that the loop runs
  4294967295 times, each time appending the indices of a whole band.
\<close>

theorem C10_latitude_one:
  "(1 :: u32) - 2 = 4294967295 \<and>
   (\<exists>s. Sphere ops r n_lon 1 = Inr s \<and>
        m_n_latitudes s = 1 \<and> m_n_vertexes s = 2 \<and> length (m_vertexes s) = 12 \<and>
        for_loop 0 (m_n_latitudes s - 2) (\<lambda>i_lat c. Suc c) (0 :: nat) = 4294967295 \<and>
        length (m_indices s)
        = (3 * (unat n_lon - 1) + 3) + 4294967295 * (6 * (unat n_lon - 1) + 6)
          + (3 * (unat n_lon - 1) + 3))"
proof -
  have f: "fits n_lon 1"
    by (simp add: fits_def n_vertices_def)
  have one: "(1 :: u32) \<le> 1"
    by simp
  from Sphere_fits [OF one f, of ops r] obtain s where s: "Sphere ops r n_lon 1 = Inr s"
    by simp
  note res = Sphere_result [OF s one]
  have w: "(1 :: u32) - 2 = 4294967295"
    by simp
  have nv: "m_n_vertexes s = 2"
    by (subst res(2)) (simp add: n_vertices_def)
  have lat: "m_n_latitudes s = 1"
    by (subst res(2)) simp
  have lv: "length (m_vertexes s) = 12"
    by (subst res(2)) (simp add: length_positions n_vertices_def)
  have cnt: "for_loop 0 (m_n_latitudes s - 2) (\<lambda>i_lat c. Suc c) (0 :: nat) = 4294967295"
    by (simp only: lat w for_loop_eq_fold fold_count) simp
  have li: "length (m_indices s)
        = (3 * (unat n_lon - 1) + 3) + 4294967295 * (6 * (unat n_lon - 1) + 6)
          + (3 * (unat n_lon - 1) + 3)"
  proof -
    have "unat ((1 :: u32) - 2) = 4294967295"
      by (simp only: w) simp
    then have "length (indices_of n_lon 1)
        = (3 * (unat n_lon - 1) + 3) + 4294967295 * (6 * (unat n_lon - 1) + 6)
          + (3 * (unat n_lon - 1) + 3)"
      by (simp only: length_indices_of)
    then show ?thesis
      by (subst res(2)) simp
  qed
  from s w nv lat lv cnt li show ?thesis
    by blast
qed

end
